theory Spec2Isabelle
  imports Complex_Main "HOL-Library.Word"
begin

unbundle bit_operations_syntax

section \<open>Vector registers and their lanes\<close>

text \<open>
  The kernels run on x86-64: pointers and \<open>size_t\<close> are 64 bits wide, memory is
  byte addressed and little endian.  A \<open>__m128i\<close> is a 128-bit word and a
  \<open>__m256i\<close> a 256-bit word; lane \<open>i\<close> of width \<open>w\<close> is the bit field
  \<open>[i * w, i * w + w)\<close>, lane 0 being the least significant one.
\<close>

type_synonym addr = "64 word"
type_synonym byte = "8 word"
type_synonym m128i = "128 word"
type_synonym m256i = "256 word"

definition lane :: "nat \<Rightarrow> 'a::len word \<Rightarrow> 'b::len word" where
  "lane i v = ucast (drop_bit (i * LENGTH('b)) v)"

definition unlanes :: "'b::len word list \<Rightarrow> 'a::len word" where
  "unlanes xs = foldr (\<lambda>x r. push_bit LENGTH('b) r OR ucast x) xs 0"

definition lanewise :: "('b::len word \<Rightarrow> 'b word) \<Rightarrow> 'a::len word \<Rightarrow> 'a word" where
  "lanewise f a = unlanes (map (\<lambda>i. f (lane i a)) [0..<LENGTH('a) div LENGTH('b)])"

definition lanewise2 ::
  "('b::len word \<Rightarrow> 'b word \<Rightarrow> 'b word) \<Rightarrow> 'a::len word \<Rightarrow> 'a word \<Rightarrow> 'a word" where
  "lanewise2 f a b =
     unlanes (map (\<lambda>i. f (lane i a) (lane i b)) [0..<LENGTH('a) div LENGTH('b)])"

section \<open>The AVX2 and SSE intrinsics the depthwise kernel uses\<close>

text \<open>Signed saturation of an integer to 16 and to 8 bits.\<close>

definition saturate16 :: "int \<Rightarrow> 16 word" where
  "saturate16 i = (if 32767 < i then 32767 else if i < - 32768 then - 32768 else word_of_int i)"

definition saturate8 :: "int \<Rightarrow> 8 word" where
  "saturate8 i = (if 127 < i then 127 else if i < - 128 then - 128 else word_of_int i)"

definition mm256_setzero_si256 :: m256i where
  "mm256_setzero_si256 = 0"

definition mm256_broadcastsi128_si256 :: "m128i \<Rightarrow> m256i" where
  "mm256_broadcastsi128_si256 a = unlanes [a, a]"

definition mm256_cvtepi8_epi32 :: "m128i \<Rightarrow> m256i" where
  "mm256_cvtepi8_epi32 a = unlanes (map (\<lambda>j. (scast (lane j a :: 8 word) :: 32 word)) [0..<8])"

definition mm256_add_epi32 :: "m256i \<Rightarrow> m256i \<Rightarrow> m256i" where
  "mm256_add_epi32 a b = lanewise2 (\<lambda>x y :: 32 word. x + y) a b"

definition mm256_sub_epi32 :: "m256i \<Rightarrow> m256i \<Rightarrow> m256i" where
  "mm256_sub_epi32 a b = lanewise2 (\<lambda>x y :: 32 word. x - y) a b"

definition mm256_mullo_epi32 :: "m256i \<Rightarrow> m256i \<Rightarrow> m256i" where
  "mm256_mullo_epi32 a b = lanewise2 (\<lambda>x y :: 32 word. x * y) a b"

definition mm256_add_epi64 :: "m256i \<Rightarrow> m256i \<Rightarrow> m256i" where
  "mm256_add_epi64 a b = lanewise2 (\<lambda>x y :: 64 word. x + y) a b"

text \<open>Signed 32 x 32 to 64 bit multiplication of the low halves of the 64-bit lanes.\<close>

definition mm256_mul_epi32 :: "m256i \<Rightarrow> m256i \<Rightarrow> m256i" where
  "mm256_mul_epi32 a b =
     unlanes (map (\<lambda>j. (scast (lane (2 * j) a :: 32 word) :: 64 word) *
                        scast (lane (2 * j) b :: 32 word)) [0..<4])"

definition mm256_srli_epi64 :: "m256i \<Rightarrow> nat \<Rightarrow> m256i" where
  "mm256_srli_epi64 a imm8 = lanewise (\<lambda>x :: 64 word. if 63 < imm8 then 0 else drop_bit imm8 x) a"

text \<open>Bit \<open>j mod 8\<close> of the immediate selects 16-bit lane \<open>j\<close> from \<open>b\<close>.\<close>

definition mm256_blend_epi16 :: "m256i \<Rightarrow> m256i \<Rightarrow> nat \<Rightarrow> m256i" where
  "mm256_blend_epi16 a b imm8 =
     unlanes (map (\<lambda>j. if bit imm8 (j mod 8) then (lane j b :: 16 word) else lane j a) [0..<16])"

definition mm256_and_si256 :: "m256i \<Rightarrow> m256i \<Rightarrow> m256i" where
  "mm256_and_si256 a b = a AND b"

text \<open>A lane of the comparison is all ones (that is, \<open>-1\<close>) where it holds.\<close>

definition mm256_cmpgt_epi32 :: "m256i \<Rightarrow> m256i \<Rightarrow> m256i" where
  "mm256_cmpgt_epi32 a b = lanewise2 (\<lambda>x y :: 32 word. if sint y < sint x then - 1 else 0) a b"

text \<open>The shift count is the low 64 bits of \<open>count\<close>; a count above 31 fills with the sign.\<close>

definition mm256_sra_epi32 :: "m256i \<Rightarrow> m128i \<Rightarrow> m256i" where
  "mm256_sra_epi32 a count =
     lanewise (\<lambda>x :: 32 word.
        if 31 < unat (lane 0 count :: 64 word) then (if sint x < 0 then - 1 else 0)
        else signed_drop_bit (unat (lane 0 count :: 64 word)) x) a"

definition mm256_castsi256_si128 :: "m256i \<Rightarrow> m128i" where
  "mm256_castsi256_si128 a = ucast a"

definition mm256_extracti128_si256 :: "m256i \<Rightarrow> nat \<Rightarrow> m128i" where
  "mm256_extracti128_si256 a imm8 = lane (imm8 mod 2) a"

definition mm_packs_epi32 :: "m128i \<Rightarrow> m128i \<Rightarrow> m128i" where
  "mm_packs_epi32 a b =
     unlanes (map (\<lambda>j. saturate16 (sint (lane j a :: 32 word))) [0..<4] @
              map (\<lambda>j. saturate16 (sint (lane j b :: 32 word))) [0..<4])"

definition mm_adds_epi16 :: "m128i \<Rightarrow> m128i \<Rightarrow> m128i" where
  "mm_adds_epi16 a b = lanewise2 (\<lambda>x y :: 16 word. saturate16 (sint x + sint y)) a b"

definition mm_max_epi16 :: "m128i \<Rightarrow> m128i \<Rightarrow> m128i" where
  "mm_max_epi16 a b = lanewise2 (\<lambda>x y :: 16 word. if sint x < sint y then y else x) a b"

definition mm_min_epi16 :: "m128i \<Rightarrow> m128i \<Rightarrow> m128i" where
  "mm_min_epi16 a b = lanewise2 (\<lambda>x y :: 16 word. if sint y < sint x then y else x) a b"

definition mm_packs_epi16 :: "m128i \<Rightarrow> m128i \<Rightarrow> m128i" where
  "mm_packs_epi16 a b =
     unlanes (map (\<lambda>j. saturate8 (sint (lane j a :: 16 word))) [0..<8] @
              map (\<lambda>j. saturate8 (sint (lane j b :: 16 word))) [0..<8])"

definition mm_cvtsi128_si32 :: "m128i \<Rightarrow> 32 word" where
  "mm_cvtsi128_si32 a = lane 0 a"

definition mm_extract_epi16 :: "m128i \<Rightarrow> nat \<Rightarrow> 16 word" where
  "mm_extract_epi16 a imm8 = lane (imm8 mod 8) a"

definition mm_extract_epi8 :: "m128i \<Rightarrow> nat \<Rightarrow> 8 word" where
  "mm_extract_epi8 a imm8 = lane (imm8 mod 16) a"

definition mm_srli_epi64 :: "m128i \<Rightarrow> nat \<Rightarrow> m128i" where
  "mm_srli_epi64 a imm8 = lanewise (\<lambda>x :: 64 word. if 63 < imm8 then 0 else drop_bit imm8 x) a"

definition mm_srli_epi32 :: "m128i \<Rightarrow> nat \<Rightarrow> m128i" where
  "mm_srli_epi32 a imm8 = lanewise (\<lambda>x :: 32 word. if 31 < imm8 then 0 else drop_bit imm8 x) a"

section \<open>Requantization (lines 142-172 and 238-267 of the depthwise kernel)\<close>

text \<open>
  The \<open>sse2\<close> member of \<open>union xnn_qs8_gemm_params\<close>; its declaration is in
  \<open>xnnpack/params.h\<close>, so the block is a parameter of the model.  Every field is
  16 bytes wide and read with one aligned 128-bit load: \<open>multiplier\<close>,
  \<open>remainder_mask\<close> and \<open>remainder_threshold\<close> hold four 32-bit lanes,
  \<open>rounding\<close> and \<open>shift\<close> two 64-bit lanes, \<open>output_zero_point\<close>,
  \<open>output_min\<close> and \<open>output_max\<close> eight 16-bit lanes.
\<close>

record params =
  multiplier :: m128i
  rounding :: m128i
  remainder_mask :: m128i
  remainder_threshold :: m128i
  shift :: m128i
  output_zero_point :: m128i
  output_min :: m128i
  output_max :: m128i

text \<open>Lines 142-154: the Q31 products of the eight accumulators.\<close>

definition vq31prod :: "params \<Rightarrow> m256i \<Rightarrow> m256i" where
  "vq31prod p vacc01234567 =
    (let vmultiplier = mm256_broadcastsi128_si256 (multiplier p);
         vrounding = mm256_broadcastsi128_si256 (rounding p);
         vacc1357 = mm256_srli_epi64 vacc01234567 32;
         vprod0246 = mm256_add_epi64 (mm256_mul_epi32 vacc01234567 vmultiplier) vrounding;
         vprod1357 = mm256_add_epi64 (mm256_mul_epi32 vacc1357 vmultiplier) vrounding;
         vq31prod0246 = mm256_srli_epi64 vprod0246 31;
         vq31prod1357 = mm256_add_epi64 vprod1357 vprod1357
     in mm256_blend_epi16 vq31prod0246 vq31prod1357 0xCC)"

text \<open>Lines 156-158: the remainders.\<close>

definition vrem :: "params \<Rightarrow> m256i \<Rightarrow> m256i" where
  "vrem p vq31prod01234567 =
    (let vremainder_mask = mm256_broadcastsi128_si256 (remainder_mask p)
     in mm256_add_epi32 (mm256_and_si256 vq31prod01234567 vremainder_mask)
          (mm256_cmpgt_epi32 mm256_setzero_si256 vq31prod01234567))"

text \<open>Lines 160-163: the shifted and corrected accumulators.\<close>

definition vscaled :: "params \<Rightarrow> m256i \<Rightarrow> m256i" where
  "vscaled p vq31prod01234567 =
    (let vrem01234567 = vrem p vq31prod01234567;
         vremainder_threshold = mm256_broadcastsi128_si256 (remainder_threshold p);
         vshift = shift p
     in mm256_sub_epi32 (mm256_sra_epi32 vq31prod01234567 vshift)
          (mm256_cmpgt_epi32 vrem01234567 vremainder_threshold))"

text \<open>Line 165-166: narrowing to 16 bits and adding the zero point, both saturating.\<close>

definition vout_zero_point :: "params \<Rightarrow> m256i \<Rightarrow> m128i" where
  "vout_zero_point p vacc01234567 =
    (let voutput_zero_point = output_zero_point p
     in mm_adds_epi16
          (mm_packs_epi32 (mm256_castsi256_si128 vacc01234567)
             (mm256_extracti128_si256 vacc01234567 1))
          voutput_zero_point)"

text \<open>Lines 168-172: clamping, and narrowing to 8 bits; the low 8 bytes are the outputs.\<close>

definition vout :: "params \<Rightarrow> m256i \<Rightarrow> m128i" where
  "vout p vacc01234567 =
    (let vout01234567 = vout_zero_point p vacc01234567;
         voutput_min = output_min p;
         voutput_max = output_max p;
         vout01234567 = mm_min_epi16 (mm_max_epi16 vout01234567 voutput_min) voutput_max
     in mm_packs_epi16 vout01234567 vout01234567)"

definition requantize :: "params \<Rightarrow> m256i \<Rightarrow> m128i" where
  "requantize p vacc01234567 = vout p (vscaled p (vq31prod p vacc01234567))"

text \<open>
  Parameter blocks and accumulator vectors whose lanes all hold the same value, for
  concrete instances.
\<close>

definition uniform_params ::
  "32 word \<Rightarrow> 64 word \<Rightarrow> 32 word \<Rightarrow> 32 word \<Rightarrow> 64 word \<Rightarrow> 16 word \<Rightarrow> 16 word \<Rightarrow> 16 word \<Rightarrow> params" where
  "uniform_params m r rmask thr s zp omin omax =
     \<lparr>multiplier = unlanes (replicate 4 m), rounding = unlanes (replicate 2 r),
      remainder_mask = unlanes (replicate 4 rmask), remainder_threshold = unlanes (replicate 4 thr),
      shift = unlanes (replicate 2 s), output_zero_point = unlanes (replicate 8 zp),
      output_min = unlanes (replicate 8 omin), output_max = unlanes (replicate 8 omax)\<rparr>"

definition splat32 :: "32 word \<Rightarrow> m256i" where
  "splat32 x = unlanes (replicate 8 x)"

text \<open>
  An instance: the multiplier \<open>2^30\<close> (one half in Q31), the rounding constant
  \<open>2^30\<close>, shift 1 with its mask 1 and threshold 0, zero point 0 and the full
  signed 8-bit output range.
\<close>

definition example_params :: params where
  "example_params = uniform_params 0x40000000 0x40000000 1 0 1 0 (- 128) 127"

text \<open>
  The rounding error of lane \<open>i\<close> after lines 142-163: the rescaled accumulator
  less the exact quotient \<open>acc * multiplier / 2^(31 + shift)\<close>, in units of the
  last place of the result.
\<close>

definition rounding_error :: "params \<Rightarrow> m256i \<Rightarrow> nat \<Rightarrow> real" where
  "rounding_error p vacc i =
     real_of_int (sint (lane i (vscaled p (vq31prod p vacc)) :: 32 word)) -
     real_of_int (sint (lane i vacc :: 32 word) * sint (lane 0 (multiplier p) :: 32 word)) /
       2 ^ (31 + unat (lane 0 (shift p) :: 64 word))"

section \<open>Memory\<close>

text \<open>
  One flat byte-addressed memory, and a trace of the accesses in program order.  Every
  load records which load of the source it is: of an indirection entry
  \<open>input[k]\<close>, of the eight biases at \<open>w\<close>, of the eight weights or the eight
  input bytes of tap \<open>k\<close>.
\<close>

datatype region = IndirectionEntry nat | PackedBias | PackedWeights nat | InputRow nat

datatype access = Load region addr nat | Store addr nat

record machine =
  mem :: "addr \<Rightarrow> byte"
  trace :: "access list"

definition load_bytes :: "machine \<Rightarrow> addr \<Rightarrow> nat \<Rightarrow> byte list" where
  "load_bytes s a n = map (\<lambda>j. mem s (a + of_nat j)) [0..<n]"

definition logged :: "access \<Rightarrow> machine \<Rightarrow> machine" where
  "logged e s = s\<lparr>trace := trace s @ [e]\<rparr>"

definition store_bytes :: "addr \<Rightarrow> byte list \<Rightarrow> machine \<Rightarrow> machine" where
  "store_bytes a bs s =
     s\<lparr>mem := fold (\<lambda>j m. m(a + of_nat j := bs ! j)) [0..<length bs] (mem s),
       trace := trace s @ [Store a (length bs)]\<rparr>"

text \<open>\<open>input[k]\<close>: a 64-bit little-endian pointer.\<close>

definition load_ptr :: "region \<Rightarrow> addr \<Rightarrow> machine \<Rightarrow> addr \<times> machine" where
  "load_ptr r a s = (unlanes (load_bytes s a 8), logged (Load r a 8) s)"

text \<open>The low 64 bits are loaded, the high 64 bits are zero.\<close>

definition mm_loadl_epi64 :: "region \<Rightarrow> addr \<Rightarrow> machine \<Rightarrow> m128i \<times> machine" where
  "mm_loadl_epi64 r a s = (unlanes (load_bytes s a 8), logged (Load r a 8) s)"

definition mm256_loadu_si256 :: "region \<Rightarrow> addr \<Rightarrow> machine \<Rightarrow> m256i \<times> machine" where
  "mm256_loadu_si256 r a s = (unlanes (load_bytes s a 32), logged (Load r a 32) s)"

definition mm_storel_epi64 :: "addr \<Rightarrow> m128i \<Rightarrow> machine \<Rightarrow> machine" where
  "mm_storel_epi64 a v s = store_bytes a (map (\<lambda>j. lane j v) [0..<8]) s"

text \<open>The scalar stores \<open>*((uint32_t*) output) = x\<close>, \<open>*((uint16_t*) output) = x\<close> and \<open>*output = x\<close>.\<close>

definition store_u32 :: "addr \<Rightarrow> 32 word \<Rightarrow> machine \<Rightarrow> machine" where
  "store_u32 a x s = store_bytes a (map (\<lambda>j. lane j x) [0..<4]) s"

definition store_u16 :: "addr \<Rightarrow> 16 word \<Rightarrow> machine \<Rightarrow> machine" where
  "store_u16 a x s = store_bytes a (map (\<lambda>j. lane j x) [0..<2]) s"

definition store_i8 :: "addr \<Rightarrow> 8 word \<Rightarrow> machine \<Rightarrow> machine" where
  "store_i8 a x s = store_bytes a [x] s"

section \<open>The depthwise convolution kernel \<open>xnn_qs8_dwconv_minmax_ukernel_up8x9__avx2_mul32\<close>\<close>

datatype error = AssertionFailed

text \<open>Lines 35-37: the offset is added unless the pointer is the zero sentinel.\<close>

definition tap_pointer :: "addr \<Rightarrow> addr \<Rightarrow> addr \<Rightarrow> addr" where
  "tap_pointer input_offset zero i = (if i \<noteq> zero then i + input_offset else i)"

text \<open>
  Lines 33-77, for the taps \<open>ks\<close> in turn: load \<open>input[k]\<close>, assert that it is
  not \<open>NULL\<close>, and add the offset.
\<close>

fun load_taps ::
  "addr \<Rightarrow> addr \<Rightarrow> addr \<Rightarrow> nat list \<Rightarrow> machine \<Rightarrow> error + (addr list \<times> machine)" where
  "load_taps input input_offset zero [] s = Inr ([], s)"
| "load_taps input input_offset zero (k # ks) s =
     (let (i, s1) = load_ptr (IndirectionEntry k) (input + 8 * of_nat k) s
      in if i = 0 then Inl AssertionFailed
         else (case load_taps input input_offset zero ks s1 of
                 Inl e \<Rightarrow> Inl e
               | Inr (ptrs, s2) \<Rightarrow> Inr (tap_pointer input_offset zero i # ptrs, s2)))"

text \<open>
  Lines 86-90, and the same for every tap \<open>k\<close> up to line 138: the eight input bytes at
  the tap's pointer and the eight weights at \<open>w + 8 * sizeof(int32_t) + 8 * k\<close>
  are sign-extended, multiplied and added to the accumulators; the tap's pointer
  advances by 8.
\<close>

definition accumulate_tap ::
  "addr \<Rightarrow> nat \<Rightarrow> m256i \<times> addr list \<times> machine \<Rightarrow> m256i \<times> addr list \<times> machine" where
  "accumulate_tap w k = (\<lambda>(vacc01234567, ptrs, s).
     (let (vi, s1) = mm_loadl_epi64 (InputRow k) (ptrs ! k) s;
          vix01234567 = mm256_cvtepi8_epi32 vi;
          (vk, s2) = mm_loadl_epi64 (PackedWeights k) (w + 32 + 8 * of_nat k) s1;
          vkx01234567 = mm256_cvtepi8_epi32 vk
      in (mm256_add_epi32 vacc01234567 (mm256_mullo_epi32 vix01234567 vkx01234567),
          ptrs[k := ptrs ! k + 8], s2)))"

text \<open>Lines 83-138, and again lines 179-234: the biases, then the nine taps.\<close>

definition accumulate :: "addr \<Rightarrow> addr list \<Rightarrow> machine \<Rightarrow> m256i \<times> addr list \<times> machine" where
  "accumulate w ptrs s =
     (let (vacc01234567, s0) = mm256_loadu_si256 PackedBias w s
      in fold (accumulate_tap w) [0..<9] (vacc01234567, ptrs, s0))"

text \<open>Lines 83-175: one full tile of eight channels.\<close>

definition full_tile ::
  "params \<Rightarrow> addr \<times> addr list \<times> addr \<times> machine \<Rightarrow> addr \<times> addr list \<times> addr \<times> machine" where
  "full_tile p = (\<lambda>(w, ptrs, output, s).
     (let (vacc01234567, ptrs', s1) = accumulate w ptrs s;
          vout0123456701234567 = requantize p vacc01234567
      in (w + 104, ptrs', output + 8, mm_storel_epi64 output vout0123456701234567 s1)))"

text \<open>Line 82: \<open>for (; c >= 8; c -= 8)\<close>.\<close>

function tiles ::
  "params \<Rightarrow> nat \<Rightarrow> addr \<times> addr list \<times> addr \<times> machine \<Rightarrow>
     nat \<times> addr \<times> addr list \<times> addr \<times> machine" where
  "tiles p c st = (if 8 \<le> c then tiles p (c - 8) (full_tile p st) else (c, st))"
  by pat_completeness auto
termination
  by (relation "measure (\<lambda>(p, c, st). c)") auto

declare tiles.simps [simp del]

text \<open>
  Lines 177-284: the tail of \<open>c\<close> channels, \<open>0 < c < 8\<close>.  The accumulation and
  the requantization are those of a full tile; four, two and one bytes are stored
  as the bits of \<open>c\<close> say.
\<close>

definition tail_tile ::
  "params \<Rightarrow> nat \<Rightarrow> addr \<times> addr list \<times> addr \<times> machine \<Rightarrow> addr \<times> machine" where
  "tail_tile p c = (\<lambda>(w, ptrs, output, s).
     (let (vacc01234567, ptrs', s1) = accumulate w ptrs s;
          vout0123456701234567 = requantize p vacc01234567;
          (v4, output4, s4) =
            (if c AND 4 \<noteq> 0
             then (mm_srli_epi64 vout0123456701234567 32, output + 4,
                   store_u32 output (mm_cvtsi128_si32 vout0123456701234567) s1)
             else (vout0123456701234567, output, s1));
          (v2, output2, s2) =
            (if c AND 2 \<noteq> 0
             then (mm_srli_epi32 v4 16, output4 + 2, store_u16 output4 (mm_extract_epi16 v4 0) s4)
             else (v4, output4, s4))
      in if c AND 1 \<noteq> 0
         then (output2 + 1, store_i8 output2 (mm_extract_epi8 v2 0) s2)
         else (output2, s2)))"

text \<open>Lines 33-286: one iteration of the loop over \<open>output_width\<close>.\<close>

definition column ::
  "params \<Rightarrow> nat \<Rightarrow> addr \<Rightarrow> addr \<Rightarrow> addr \<Rightarrow> addr \<Rightarrow> addr \<Rightarrow> addr \<Rightarrow> machine \<Rightarrow>
     error + (addr \<times> machine)" where
  "column p channels weights output_increment input_offset zero input output s =
     (case load_taps input input_offset zero [0..<9] s of
        Inl e \<Rightarrow> Inl e
      | Inr (ptrs, s1) \<Rightarrow>
          (let (c, w, ptrs', output', s2) = tiles p channels (weights, ptrs, output, s1);
               (output'', s3) = (if c \<noteq> 0 then tail_tile p c (w, ptrs', output', s2)
                                 else (output', s2))
           in Inr (output'' + output_increment, s3)))"

text \<open>
  Lines 32-287: \<open>do { ... } while (--output_width != 0)\<close>, for a positive
  \<open>output_width\<close>; \<open>input\<close> advances by \<open>input_stride\<close> bytes.
\<close>

fun columns ::
  "params \<Rightarrow> nat \<Rightarrow> addr \<Rightarrow> addr \<Rightarrow> addr \<Rightarrow> addr \<Rightarrow> addr \<Rightarrow> nat \<Rightarrow> addr \<Rightarrow> addr \<Rightarrow> machine \<Rightarrow>
     error + (addr \<times> machine)" where
  "columns p channels weights input_stride output_increment input_offset zero 0 input output s =
     Inr (output, s)"
| "columns p channels weights input_stride output_increment input_offset zero (Suc n) input output s =
     (case column p channels weights output_increment input_offset zero input output s of
        Inl e \<Rightarrow> Inl e
      | Inr (output', s') \<Rightarrow>
          columns p channels weights input_stride output_increment input_offset zero n
            (input + input_stride) output' s')"

text \<open>
  The kernel: \<open>channels\<close> and \<open>output_width\<close> are \<open>size_t\<close> counters that only
  count down, and are natural numbers here.  It returns the final \<open>output\<close> pointer
  with the machine.
\<close>

definition xnn_qs8_dwconv_minmax_ukernel_up8x9__avx2_mul32 ::
  "nat \<Rightarrow> nat \<Rightarrow> addr \<Rightarrow> addr \<Rightarrow> addr \<Rightarrow> addr \<Rightarrow> addr \<Rightarrow> addr \<Rightarrow> addr \<Rightarrow> params \<Rightarrow> machine \<Rightarrow>
     error + (addr \<times> machine)" where
  "xnn_qs8_dwconv_minmax_ukernel_up8x9__avx2_mul32 channels output_width input weights output
       input_stride output_increment input_offset zero p s =
     (if channels = 0 \<or> output_width = 0 then Inl AssertionFailed
      else columns p channels weights input_stride output_increment input_offset zero
             output_width input output s)"

section \<open>Reading a trace\<close>

text \<open>The stores of a trace, the loads from input row \<open>k\<close>, and the loads of a tile.\<close>

fun stores :: "access list \<Rightarrow> (addr \<times> nat) list" where
  "stores [] = []"
| "stores (Store a n # es) = (a, n) # stores es"
| "stores (Load r a n # es) = stores es"

fun row_loads :: "nat \<Rightarrow> access list \<Rightarrow> addr list" where
  "row_loads k [] = []"
| "row_loads k (Load (InputRow k') a n # es) = (if k' = k then a # row_loads k es else row_loads k es)"
| "row_loads k (e # es) = row_loads k es"

definition tile_loads :: "addr \<Rightarrow> addr list \<Rightarrow> access list" where
  "tile_loads w ptrs =
     Load PackedBias w 32 #
     concat (map (\<lambda>k. [Load (InputRow k) (ptrs ! k) 8,
                         Load (PackedWeights k) (w + 32 + 8 * of_nat k) 8]) [0..<9])"

text \<open>
  The stores of a tail of \<open>c\<close> channels and of a column of \<open>channels\<close> channels
  whose first output byte is at \<open>output\<close>, as address and size.
\<close>

definition tail_stores :: "nat \<Rightarrow> addr \<Rightarrow> (addr \<times> nat) list" where
  "tail_stores c output =
     (let output4 = (if c AND 4 \<noteq> 0 then output + 4 else output);
          output2 = (if c AND 2 \<noteq> 0 then output4 + 2 else output4)
      in (if c AND 4 \<noteq> 0 then [(output, 4)] else []) @
         (if c AND 2 \<noteq> 0 then [(output4, 2)] else []) @
         (if c AND 1 \<noteq> 0 then [(output2, 1)] else []))"

definition column_stores :: "nat \<Rightarrow> addr \<Rightarrow> (addr \<times> nat) list" where
  "column_stores channels output =
     map (\<lambda>t. (output + 8 * of_nat t, 8)) [0..<channels div 8] @
     tail_stores (channels mod 8) (output + 8 * of_nat (channels div 8))"

text \<open>The accesses of the full tile number \<open>t\<close> of a column.\<close>

definition tile_accesses :: "addr \<Rightarrow> addr list \<Rightarrow> addr \<Rightarrow> nat \<Rightarrow> access list" where
  "tile_accesses w ptrs out t =
     tile_loads (w + 104 * of_nat t) (map (\<lambda>a. a + 8 * of_nat t) ptrs) @ [Store (out + 8 * of_nat t) 8]"

text \<open>The indirection entry \<open>input[k]\<close> as the memory holds it.\<close>

definition indirection_entry :: "machine \<Rightarrow> addr \<Rightarrow> nat \<Rightarrow> addr" where
  "indirection_entry s input k = unlanes (load_bytes s (input + 8 * of_nat k) 8)"

text \<open>
  The bytes a list of accesses stores to; and \<open>extends s s'\<close>: the machine \<open>s'\<close>
  comes from \<open>s\<close> by further accesses, which leave every byte they do not store to
  as it was.
\<close>

definition touched :: "access list \<Rightarrow> addr \<Rightarrow> bool" where
  "touched es x \<longleftrightarrow> (\<exists>(a, n) \<in> set (stores es). \<exists>j<n. x = a + of_nat j)"

definition extends :: "machine \<Rightarrow> machine \<Rightarrow> bool" where
  "extends s s' \<longleftrightarrow>
     (\<exists>es. trace s' = trace s @ es \<and> (\<forall>x. \<not> touched es x \<longrightarrow> mem s' x = mem s x))"

text \<open>
  An instance: the bytes below address 108 hold 3, so that the indirection entry at
  address 100 is the pointer \<open>0x0303030303030303\<close>; the bytes from that address on
  hold 0; every other byte holds 1, so that every other indirection entry is the
  pointer \<open>0x0101010101010101\<close>.
\<close>

definition example_machine :: machine where
  "example_machine =
     \<lparr>mem = (\<lambda>a. if a < 108 then 3 else if a < 0x0303030303030303 then 1 else 0), trace = []\<rparr>"

text \<open>
  A run of the kernel on that machine: 8 channels, 2 columns, the indirection buffer
  at address 100 with 72 bytes per column, the packed weights at 2000, the output at
  1000 with an increment of 3, the input offset 16, and the zero sentinel
  \<open>0x0303030303030303\<close>.
\<close>

definition example_run :: "error + (addr \<times> machine)" where
  "example_run =
     xnn_qs8_dwconv_minmax_ukernel_up8x9__avx2_mul32 8 2 100 2000 1000 72 3 16
       0x0303030303030303 example_params example_machine"

text \<open>One column of 20 channels on that machine: two full tiles and a tail of 4.\<close>

definition example_column :: "error + (addr \<times> machine)" where
  "example_column =
     column example_params 20 2000 3 16 0x0303030303030303 100 1000 example_machine"

text \<open>
  How far the loads of a trace reach: the largest end, as a number of bytes from the
  base \<open>b\<close>, of a load from a region that \<open>P\<close> selects.
\<close>

fun extent :: "(region \<Rightarrow> bool) \<Rightarrow> addr \<Rightarrow> access list \<Rightarrow> nat" where
  "extent P b [] = 0"
| "extent P b (Load r a n # es) =
     (if P r then max (unat (a - b) + n) (extent P b es) else extent P b es)"
| "extent P b (Store a n # es) = extent P b es"

fun packed :: "region \<Rightarrow> bool" where
  "packed PackedBias = True"
| "packed (PackedWeights k) = True"
| "packed (IndirectionEntry k) = False"
| "packed (InputRow k) = False"


text \<open>
  The parameters of the instance with the zero point \<open>-32768\<close>, the least 16-bit
  value.
\<close>

definition extreme_zero_point_params :: params where
  "extreme_zero_point_params = uniform_params 0x40000000 0x40000000 1 0 1 (- 32768) (- 128) 127"


section \<open>The depth-to-space kernel \<open>xnn_x32_depth_to_space_chw2hwc_ukernel__scalar_c1_ib2\<close>\<close>

text \<open>
  The memory, and the element copies in program order, each as the address written and
  the address read.
\<close>

type_synonym size_t = "64 word"

record x32_machine =
  x32_mem :: "addr \<Rightarrow> byte"
  x32_copies :: "(addr \<times> addr) list"

text \<open>
  Lines 77, 88 and 103: \<open>*(uint32_t*) o_c = *(uint32_t*) i_c\<close>.  The four bytes at
  \<open>i_c\<close> are read, then written at \<open>o_c\<close>.
\<close>

definition copy_u32 :: "addr \<Rightarrow> addr \<Rightarrow> x32_machine \<Rightarrow> x32_machine" where
  "copy_u32 i_c o_c s =
     \<lparr>x32_mem = (\<lambda>a. if a - o_c < 4 then x32_mem s (i_c + (a - o_c)) else x32_mem s a),
      x32_copies = x32_copies s @ [(o_c, i_c)]\<rparr>"

text \<open>
  The four loops \<open>do { ...; i += i_increment; o += o_increment; } while (--n != 0)\<close> of
  lines 57-120 (over \<open>iy\<close>, \<open>by\<close> and \<open>ix\<close>) and of lines 76-80, 87-91 and
  102-106 (over \<open>c\<close>).  The counter is a \<open>size_t\<close>: from 0 it wraps.
\<close>

function do_while ::
  "(addr \<Rightarrow> addr \<Rightarrow> 's \<Rightarrow> 's) \<Rightarrow> size_t \<Rightarrow> size_t \<Rightarrow> size_t \<Rightarrow> addr \<Rightarrow> addr \<Rightarrow> 's \<Rightarrow> 's" where
  "do_while body i_increment o_increment n i_p o_p s =
     (let s' = body i_p o_p s
      in if n - 1 \<noteq> 0
         then do_while body i_increment o_increment (n - 1) (i_p + i_increment) (o_p + o_increment) s'
         else s')"
  by pat_completeness auto
termination
  apply (relation "measure (\<lambda>(body, i_increment, o_increment, n, i_p, o_p, s). unat (n - 1))")
   apply simp
  subgoal for body i_increment o_increment n
    using unat_minus_one[of "n - 1"] by (simp add: unat_gt_0)
  done

declare do_while.simps [simp del]

text \<open>Lines 70-96: \<open>for (; bx >= 2; bx -= 2)\<close>, two blocks of channels in each iteration.\<close>

function bx_pairs ::
  "(addr \<Rightarrow> addr \<Rightarrow> 's \<Rightarrow> 's) \<Rightarrow> size_t \<Rightarrow> size_t \<Rightarrow> size_t \<Rightarrow> addr \<Rightarrow> addr \<Rightarrow> 's \<Rightarrow>
     size_t \<times> addr \<times> addr \<times> 's" where
  "bx_pairs channels bx_input_increment bx_output_increment bx i_bx o_bx s =
     (if 2 \<le> bx
      then let s1 = channels (i_bx + 0 * bx_input_increment) (o_bx + 0 * bx_output_increment) s;
               s2 = channels (i_bx + 1 * bx_input_increment) (o_bx + 1 * bx_output_increment) s1
           in bx_pairs channels bx_input_increment bx_output_increment (bx - 2)
                (i_bx + 2 * bx_input_increment) (o_bx + 2 * bx_output_increment) s2
      else (bx, i_bx, o_bx, s))"
  by pat_completeness auto
termination
  by (relation "measure (\<lambda>(channels, bx_input_increment, bx_output_increment, bx, i_bx, o_bx, s). unat bx)")
     (auto simp add: unat_sub word_le_nat_alt)

declare bx_pairs.simps [simp del]

text \<open>Lines 97-110: \<open>for (; bx != 0; bx--)\<close>, the block left when \<open>block_size\<close> is odd.\<close>

function bx_rest ::
  "(addr \<Rightarrow> addr \<Rightarrow> 's \<Rightarrow> 's) \<Rightarrow> size_t \<Rightarrow> size_t \<Rightarrow> size_t \<Rightarrow> addr \<Rightarrow> addr \<Rightarrow> 's \<Rightarrow> 's" where
  "bx_rest channels bx_input_increment bx_output_increment bx i_bx o_bx s =
     (if bx \<noteq> 0
      then bx_rest channels bx_input_increment bx_output_increment (bx - 1)
             (i_bx + bx_input_increment) (o_bx + bx_output_increment) (channels i_bx o_bx s)
      else s)"
  by pat_completeness auto
termination
  by (relation "measure (\<lambda>(channels, bx_input_increment, bx_output_increment, bx, i_bx, o_bx, s). unat bx)")
     (auto simp add: unat_minus_one unat_gt_0)

declare bx_rest.simps [simp del]

text \<open>
  Lines 15-121.  The assertions of lines 27-30 fail for a dimension that is zero; the
  increments are those of lines 40-52, products of \<open>size_t\<close> values.
\<close>

definition xnn_x32_depth_to_space_chw2hwc_ukernel__scalar_c1_ib2 ::
  "size_t \<Rightarrow> size_t \<Rightarrow> size_t \<Rightarrow> size_t \<Rightarrow> addr \<Rightarrow> addr \<Rightarrow> size_t \<Rightarrow> size_t \<Rightarrow> size_t \<Rightarrow> size_t \<Rightarrow>
     x32_machine \<Rightarrow> error + x32_machine" where
  "xnn_x32_depth_to_space_chw2hwc_ukernel__scalar_c1_ib2 output_channels input_height input_width
       block_size input output input_channel_stride input_height_stride output_height_stride
       output_width_stride s =
     (if output_channels = 0 \<or> input_height = 0 \<or> input_width = 0 \<or> block_size = 0
      then Inl AssertionFailed
      else
        let element_stride = 4;
            iy_output_increment = block_size * output_height_stride;
            by_output_increment = output_height_stride;
            ix_output_increment = block_size * output_width_stride;
            bx_output_increment = output_width_stride;
            c_output_increment = element_stride;
            c_input_increment = block_size * block_size * input_channel_stride;
            by_input_increment = block_size * input_channel_stride;
            bx_input_increment = input_channel_stride;
            iy_input_increment = input_height_stride;
            ix_input_increment = element_stride;
            channels = do_while copy_u32 c_input_increment c_output_increment output_channels;
            blocks_x = (\<lambda>i_ix o_ix s.
              let (bx, i_bx, o_bx, s1) =
                    bx_pairs channels bx_input_increment bx_output_increment block_size i_ix o_ix s
              in bx_rest channels bx_input_increment bx_output_increment bx i_bx o_bx s1);
            columns = do_while blocks_x ix_input_increment ix_output_increment input_width;
            blocks_y = do_while columns by_input_increment by_output_increment block_size;
            rows = do_while blocks_y iy_input_increment iy_output_increment input_height
        in Inr (rows input output s))"

text \<open>
  Lines 32-38: the copy of the element \<open>(iy, by, ix, bx, c)\<close>, as the address written
  and the address read; and the copies of all the elements, the last index running
  fastest.
\<close>

definition element_copy ::
  "size_t \<Rightarrow> addr \<Rightarrow> addr \<Rightarrow> size_t \<Rightarrow> size_t \<Rightarrow> size_t \<Rightarrow> size_t \<Rightarrow>
     nat \<Rightarrow> nat \<Rightarrow> nat \<Rightarrow> nat \<Rightarrow> nat \<Rightarrow> addr \<times> addr" where
  "element_copy block_size input output input_channel_stride input_height_stride
       output_height_stride output_width_stride iy yb ix xb c =
     (output + ((of_nat iy * block_size + of_nat yb) * output_height_stride +
                (of_nat ix * block_size + of_nat xb) * output_width_stride + of_nat c * 4),
      input + ((of_nat c * block_size * block_size + of_nat yb * block_size + of_nat xb) *
                 input_channel_stride +
               of_nat iy * input_height_stride + of_nat ix * 4))"

definition element_copies ::
  "size_t \<Rightarrow> size_t \<Rightarrow> size_t \<Rightarrow> size_t \<Rightarrow> addr \<Rightarrow> addr \<Rightarrow> size_t \<Rightarrow> size_t \<Rightarrow> size_t \<Rightarrow> size_t \<Rightarrow>
     (addr \<times> addr) list" where
  "element_copies output_channels input_height input_width block_size input output
       input_channel_stride input_height_stride output_height_stride output_width_stride =
     concat (map (\<lambda>iy. concat (map (\<lambda>yb. concat (map (\<lambda>ix. concat (map (\<lambda>xb.
       map (element_copy block_size input output input_channel_stride input_height_stride
              output_height_stride output_width_stride iy yb ix xb)
         [0..<unat output_channels])
       [0..<unat block_size])) [0..<unat input_width])) [0..<unat block_size]))
       [0..<unat input_height])"

text \<open>
  Two 32-bit elements at \<open>a\<close> and \<open>b\<close> overlap; no element written is an element
  read (the pointers are \<open>restrict\<close>), and no two elements written overlap.
\<close>

definition overlap :: "addr \<Rightarrow> addr \<Rightarrow> bool" where
  "overlap a b \<longleftrightarrow> a - b < 4 \<or> b - a < 4"

fun disjoint_outputs :: "(addr \<times> addr) list \<Rightarrow> bool" where
  "disjoint_outputs [] = True"
| "disjoint_outputs (e # es) = (list_all (\<lambda>e'. \<not> overlap (fst e) (fst e')) es \<and> disjoint_outputs es)"

definition no_alias :: "(addr \<times> addr) list \<Rightarrow> bool" where
  "no_alias es \<longleftrightarrow>
     list_all (\<lambda>e. list_all (\<lambda>e'. \<not> overlap (fst e) (snd e')) es) es \<and> disjoint_outputs es"

text \<open>The copies of a list, one after the other.\<close>

definition run_copies :: "(addr \<times> addr) list \<Rightarrow> x32_machine \<Rightarrow> x32_machine" where
  "run_copies es s = fold (\<lambda>(o_c, i_c). copy_u32 i_c o_c) es s"

text \<open>
  An instance: the byte at address \<open>a\<close> holds the low eight bits of \<open>a\<close>; 2 output
  channels, an input of height 1 and width 1 with 18 channels at address 100, blocks
  of 3 by 3, the output of height 3 and width 3 at address 1000, both dense.
\<close>

definition example_x32_machine :: x32_machine where
  "example_x32_machine = \<lparr>x32_mem = ucast, x32_copies = []\<rparr>"

definition example_depth_to_space :: "error + x32_machine" where
  "example_depth_to_space =
     xnn_x32_depth_to_space_chw2hwc_ukernel__scalar_c1_ib2 2 1 1 3 100 1000 4 4 24 8
       example_x32_machine"

section \<open>Lanes of the vector operations\<close>

lemma unlanes_Nil: "unlanes [] = 0" by (simp add: unlanes_def)
lemma unlanes_Cons: "(unlanes (x # xs) :: 'a::len word) = push_bit LENGTH('b::len) (unlanes xs) OR ucast (x :: 'b word)"
  by (simp add: unlanes_def)

lemma bit_unlanes:
  "bit (unlanes xs :: 'a::len word) n \<longleftrightarrow>
     n < LENGTH('a) \<and> n div LENGTH('b) < length xs \<and> bit ((xs :: 'b::len word list) ! (n div LENGTH('b))) (n mod LENGTH('b))"
proof (induction xs arbitrary: n)
  case Nil
  then show ?case by (simp add: unlanes_Nil)
next
  case (Cons x xs)
  show ?case
  proof (cases "n < LENGTH('b)")
    case True
    then show ?thesis
      by (auto simp add: unlanes_Cons bit_or_iff bit_push_bit_iff bit_ucast_iff dest: bit_imp_le_length)
  next
    case False
    then have ge: "LENGTH('b) \<le> n" by simp
    then obtain k where k: "n = k + LENGTH('b)" by (metis le_add_diff_inverse2)
    have d: "n div LENGTH('b) = Suc (k div LENGTH('b))" "n mod LENGTH('b) = k mod LENGTH('b)"
      by (simp_all add: k)
    show ?thesis using False
      apply (simp add: unlanes_Cons bit_or_iff bit_push_bit_iff bit_ucast_iff Cons.IH d)
      apply (auto simp add: k dest: bit_imp_le_length)
      done
  qed
qed

lemma bit_lane:
  "bit (lane i (v :: 'a::len word) :: 'b::len word) n \<longleftrightarrow> n < LENGTH('b) \<and> bit v (i * LENGTH('b) + n)"
  by (simp add: lane_def bit_ucast_iff bit_drop_bit_eq add.commute)

lemma lane_unlanes:
  assumes "i < length xs" "Suc i * LENGTH('b) \<le> LENGTH('a)"
  shows "(lane i (unlanes xs :: 'a::len word) :: 'b::len word) = xs ! i"
proof (rule bit_word_eqI)
  fix n assume n: "n < LENGTH('b)"
  have "i * LENGTH('b) + n < LENGTH('a)" using assms(2) n
    by (metis add_mono_thms_linordered_field(2) le_trans mult_Suc not_le add.commute)
  then show "bit (lane i (unlanes xs :: 'a word) :: 'b word) n = bit (xs ! i) n"
    using n assms(1)
    by (simp add: bit_lane bit_unlanes)
qed

lemma lane_lanewise2:
  assumes "i < LENGTH('a) div LENGTH('b)"
  shows "(lane i (lanewise2 f (a :: 'a::len word) b) :: 'b::len word) = f (lane i a) (lane i b)"
proof -
  have "Suc i * LENGTH('b) \<le> LENGTH('a)"
    using assms by (metis Suc_leI div_times_less_eq_dividend le_trans mult_le_mono1)
  then show ?thesis using assms by (simp add: lanewise2_def lane_unlanes)
qed

lemma lane_lanewise:
  assumes "i < LENGTH('a) div LENGTH('b)"
  shows "(lane i (lanewise f (a :: 'a::len word)) :: 'b::len word) = f (lane i a)"
proof -
  have "Suc i * LENGTH('b) \<le> LENGTH('a)"
    using assms by (metis Suc_leI div_times_less_eq_dividend le_trans mult_le_mono1)
  then show ?thesis using assms by (simp add: lanewise_def lane_unlanes)
qed



lemma lane_lane:
  assumes "LENGTH('b::len) = r * LENGTH('c::len)" "i < r"
  shows "(lane i (lane j (v :: 'a::len word) :: 'b word) :: 'c word) = lane (j * r + i) v"
proof (rule bit_word_eqI)
  fix n assume n: "n < LENGTH('c)"
  have "Suc i * LENGTH('c) \<le> r * LENGTH('c)" using assms(2) by (simp add: Suc_leI mult_le_mono1 del: mult_Suc)
  then have "i * LENGTH('c) + n < LENGTH('b)" using n assms(1) by simp
  then show "bit (lane i (lane j v :: 'b word) :: 'c word) n = bit (lane (j * r + i) v :: 'c word) n"
    using n by (simp add: bit_lane assms(1) algebra_simps)
qed

lemma lane32_of_64: 
  "(lane (2 * j) (v :: 'a::len word) :: 32 word) = ucast (lane j v :: 64 word)"
  "(lane (Suc (2 * j)) (v :: 'a::len word) :: 32 word) = ucast (drop_bit 32 (lane j v :: 64 word))"
proof -
  have "(lane 0 (lane j v :: 64 word) :: 32 word) = lane (j * 2 + 0) v"
    by (rule lane_lane) simp_all
  then show "(lane (2 * j) v :: 32 word) = ucast (lane j v :: 64 word)"
    by (simp add: mult.commute) (simp add: lane_def)
  have "(lane 1 (lane j v :: 64 word) :: 32 word) = lane (j * 2 + 1) v"
    by (rule lane_lane) simp_all
  then show "(lane (Suc (2 * j)) v :: 32 word) = ucast (drop_bit 32 (lane j v :: 64 word))"
    by (simp add: mult.commute) (simp add: lane_def)
qed

lemma halves_eqI:
  assumes "(lane 0 (a :: 32 word) :: 16 word) = lane 0 b" "(lane 1 a :: 16 word) = lane 1 b"
  shows "a = b"
proof (rule bit_word_eqI)
  fix n assume "n < LENGTH(32)"
  then have n: "n < 32" by simp
  show "bit a n = bit b n"
  proof (cases "n < 16")
    case True
    have "bit (lane 0 a :: 16 word) n = bit (lane 0 b :: 16 word) n" using assms(1) by simp
    then show ?thesis using True by (simp add: bit_lane)
  next
    case False
    then obtain k where k: "n = 16 + k" "k < 16" using n
      by (metis add_diff_inverse_nat numeral_Bit0 less_diff_conv2 not_less)
    have "bit (lane 1 a :: 16 word) k = bit (lane 1 b :: 16 word) k" using assms(2) by simp
    then show ?thesis using k by (simp add: bit_lane)
  qed
qed

lemma lane_and: "lane i (a AND b) = lane i a AND lane i b"
  by (rule bit_word_eqI) (auto simp add: bit_lane bit_and_iff)

lemma lane_zero: "lane i 0 = 0"
  by (simp add: lane_def)

lemma lt8_cases: "i < 8 \<Longrightarrow> i = 0 \<or> i = 1 \<or> i = 2 \<or> i = 3 \<or> i = 4 \<or> i = 5 \<or> i = 6 \<or> i = (7::nat)"
  by linarith

lemma lt4_cases: "i < 4 \<Longrightarrow> i = 0 \<or> i = 1 \<or> i = 2 \<or> i = (3::nat)"
  by linarith


lemma lane32_broadcast:
  assumes "i < 8"
  shows "(lane i (mm256_broadcastsi128_si256 a) :: 32 word) = lane (i mod 4) a"
proof -
  have "(lane (i mod 4) (lane (i div 4) (mm256_broadcastsi128_si256 a) :: 128 word) :: 32 word)
        = lane (i div 4 * 4 + i mod 4) (mm256_broadcastsi128_si256 a)"
    by (rule lane_lane) simp_all
  moreover have "(lane (i div 4) (mm256_broadcastsi128_si256 a) :: 128 word) = [a, a] ! (i div 4)"
    unfolding mm256_broadcastsi128_si256_def using assms by (intro lane_unlanes) auto
  moreover have "[a, a] ! (i div 4) = a" using lt8_cases[OF assms] by auto
  ultimately show ?thesis by simp
qed

lemma lane64_broadcast:
  assumes "j < 4"
  shows "(lane j (mm256_broadcastsi128_si256 a) :: 64 word) = lane (j mod 2) a"
proof -
  have "(lane (j mod 2) (lane (j div 2) (mm256_broadcastsi128_si256 a) :: 128 word) :: 64 word)
        = lane (j div 2 * 2 + j mod 2) (mm256_broadcastsi128_si256 a)"
    by (rule lane_lane) simp_all
  moreover have "(lane (j div 2) (mm256_broadcastsi128_si256 a) :: 128 word) = [a, a] ! (j div 2)"
    unfolding mm256_broadcastsi128_si256_def using assms by (intro lane_unlanes) auto
  moreover have "[a, a] ! (j div 2) = a" using lt4_cases[OF assms] by auto
  ultimately show ?thesis by simp
qed

lemma lane16_blend:
  assumes "k < 16"
  shows "(lane k (mm256_blend_epi16 a b imm8) :: 16 word) = (if bit imm8 (k mod 8) then lane k b else lane k a)"
  unfolding mm256_blend_epi16_def using assms by (subst lane_unlanes) auto

lemma lane32_blend_CC:
  assumes "i < 8"
  shows "(lane i (mm256_blend_epi16 a b 0xCC) :: 32 word) = (if odd i then lane i b else lane i a)"
proof -
  have sub0: "\<And>v. (lane 0 (lane i (v::256 word) :: 32 word) :: 16 word) = lane (i * 2) v"
    using lane_lane[where 'b=32 and 'c=16 and 'a=256 and r=2 and i=0 and j=i] by simp
  have sub1: "\<And>v. (lane (Suc 0) (lane i (v::256 word) :: 32 word) :: 16 word) = lane (Suc (i * 2)) v"
    using lane_lane[where 'b=32 and 'c=16 and 'a=256 and r=2 and i=1 and j=i] by simp
  have sel: "bit (0xCC :: nat) ((i * 2) mod 8) \<longleftrightarrow> odd i" "bit (0xCC :: nat) (Suc (i * 2) mod 8) \<longleftrightarrow> odd i"
    using lt8_cases[OF assms] by (auto simp: bit_iff_odd)
  have e0: "(lane (i * 2) (mm256_blend_epi16 a b 0xCC) :: 16 word) = (if odd i then lane (i * 2) b else lane (i * 2) a)"
    using assms by (simp add: lane16_blend sel)
  have e1: "(lane (Suc (i * 2)) (mm256_blend_epi16 a b 0xCC) :: 16 word) = (if odd i then lane (Suc (i * 2)) b else lane (Suc (i * 2)) a)"
    using assms by (simp add: lane16_blend sel)
  show ?thesis
    by (rule halves_eqI) (simp_all add: sub0 sub1 e0 e1)
qed

lemma lane32_add: "i < 8 \<Longrightarrow> (lane i (mm256_add_epi32 a b) :: 32 word) = lane i a + lane i b"
  by (simp add: mm256_add_epi32_def lane_lanewise2)
lemma lane32_sub: "i < 8 \<Longrightarrow> (lane i (mm256_sub_epi32 a b) :: 32 word) = lane i a - lane i b"
  by (simp add: mm256_sub_epi32_def lane_lanewise2)
lemma lane32_mullo: "i < 8 \<Longrightarrow> (lane i (mm256_mullo_epi32 a b) :: 32 word) = lane i a * lane i b"
  by (simp add: mm256_mullo_epi32_def lane_lanewise2)
lemma lane64_add: "j < 4 \<Longrightarrow> (lane j (mm256_add_epi64 a b) :: 64 word) = lane j a + lane j b"
  by (simp add: mm256_add_epi64_def lane_lanewise2)
lemma lane32_cmpgt: "i < 8 \<Longrightarrow> (lane i (mm256_cmpgt_epi32 a b) :: 32 word) = (if sint (lane i b :: 32 word) < sint (lane i a :: 32 word) then - 1 else 0)"
  by (simp add: mm256_cmpgt_epi32_def lane_lanewise2)
lemma lane64_srli: "j < 4 \<Longrightarrow> (lane j (mm256_srli_epi64 a n) :: 64 word) = drop_bit n (lane j a)"
  by (simp add: mm256_srli_epi64_def lane_lanewise drop_bit_eq_zero_iff_not_bit_last)
lemma lane64_mul: "j < 4 \<Longrightarrow> (lane j (mm256_mul_epi32 a b) :: 64 word) = scast (lane (2 * j) a :: 32 word) * scast (lane (2 * j) b :: 32 word)"
  unfolding mm256_mul_epi32_def by (subst lane_unlanes) auto

lemma sra_fill:
  assumes "31 < n"
  shows "signed_drop_bit n (x :: 32 word) = (if sint x < 0 then - 1 else 0)"
proof (rule bit_word_eqI)
  fix k assume "k < LENGTH(32)"
  then have k: "k < 32" by simp
  have "sint x < 0 \<longleftrightarrow> bit x 31"
    using bit_last_iff[of x] by simp
  then show "bit (signed_drop_bit n x) k = bit (if sint x < 0 then - 1 else 0 :: 32 word) k"
    using k assms by (simp add: bit_signed_drop_bit_iff)
qed

lemma lane32_sra: "i < 8 \<Longrightarrow> (lane i (mm256_sra_epi32 a c) :: 32 word) = signed_drop_bit (unat (lane 0 c :: 64 word)) (lane i a)"
  by (simp add: mm256_sra_epi32_def lane_lanewise sra_fill)

lemma double_drop: "(ucast (drop_bit 32 (P + P :: 64 word)) :: 32 word) = ucast (drop_bit 31 P)"
proof (rule bit_word_eqI)
  fix n assume "n < LENGTH(32)"
  then have n: "n < 32" by simp
  have pp: "P + P = push_bit 1 P" by (simp add: push_bit_eq_mult)
  have "bit (push_bit 1 P) (32 + n) = bit P (31 + n)"
    unfolding bit_push_bit_iff using n by (simp add: possible_bit_word)
  then show "bit (ucast (drop_bit 32 (P + P)) :: 32 word) n = bit (ucast (drop_bit 31 P) :: 32 word) n"
    unfolding pp using n by (simp add: bit_ucast_iff bit_drop_bit_eq)
qed

lemma vq31prod_lane:
  assumes "i < 8"
  shows "(lane i (vq31prod p vacc) :: 32 word) =
         ucast (drop_bit 31
           ((scast (lane i vacc :: 32 word) :: 64 word) *
             scast (lane (2 * (i div 2 mod 2)) (multiplier p) :: 32 word) +
            lane (i div 2 mod 2) (rounding p)))"
proof -
  define j where "j = i div 2"
  define vmultiplier where "vmultiplier = mm256_broadcastsi128_si256 (multiplier p)"
  define vrounding where "vrounding = mm256_broadcastsi128_si256 (rounding p)"
  define vacc1357 where "vacc1357 = mm256_srli_epi64 vacc 32"
  define vprod0246 where "vprod0246 = mm256_add_epi64 (mm256_mul_epi32 vacc vmultiplier) vrounding"
  define vprod1357 where "vprod1357 = mm256_add_epi64 (mm256_mul_epi32 vacc1357 vmultiplier) vrounding"
  define vq31prod0246 where "vq31prod0246 = mm256_srli_epi64 vprod0246 31"
  define vq31prod1357 where "vq31prod1357 = mm256_add_epi64 vprod1357 vprod1357"
  have unfold: "vq31prod p vacc = mm256_blend_epi16 vq31prod0246 vq31prod1357 0xCC"
    by (simp add: vq31prod_def Let_def vq31prod0246_def vq31prod1357_def vprod1357_def
          vprod0246_def vacc1357_def vrounding_def vmultiplier_def)
  have j: "j < 4" using assms by (simp add: j_def less_mult_imp_div_less)
  have j2: "2 * j < 8" using j by simp
  have m4: "2 * j mod 4 = 2 * (j mod 2)" by (simp add: mult_mod_right)
  have mult: "(lane (2 * j) vmultiplier :: 32 word) = lane (2 * (j mod 2)) (multiplier p)"
    unfolding vmultiplier_def using lane32_broadcast[OF j2, of "multiplier p"] by (simp only: m4)
  have rnd: "(lane j vrounding :: 64 word) = lane (j mod 2) (rounding p)"
    unfolding vrounding_def by (rule lane64_broadcast[OF j])
  have odd_acc: "(lane (2 * j) vacc1357 :: 32 word) = lane (Suc (2 * j)) vacc"
    unfolding vacc1357_def by (simp only: lane32_of_64 lane64_srli[OF j])
  have p0246: "(lane j vprod0246 :: 64 word) =
      scast (lane (2 * j) vacc :: 32 word) * scast (lane (2 * (j mod 2)) (multiplier p) :: 32 word)
      + lane (j mod 2) (rounding p)"
    unfolding vprod0246_def by (simp only: lane64_add[OF j] lane64_mul[OF j] mult rnd)
  have p1357: "(lane j vprod1357 :: 64 word) =
      scast (lane (Suc (2 * j)) vacc :: 32 word) * scast (lane (2 * (j mod 2)) (multiplier p) :: 32 word)
      + lane (j mod 2) (rounding p)"
    unfolding vprod1357_def by (simp only: lane64_add[OF j] lane64_mul[OF j] mult rnd odd_acc)
  show ?thesis
  proof (cases "even i")
    case True
    then have i: "i = 2 * j" by (simp add: j_def)
    have "(lane i (vq31prod p vacc) :: 32 word) = lane (2 * j) vq31prod0246"
      unfolding unfold using lane32_blend_CC[OF assms] True i by simp
    also have "\<dots> = ucast (drop_bit 31 (lane j vprod0246 :: 64 word))"
      unfolding vq31prod0246_def by (simp only: lane32_of_64 lane64_srli[OF j])
    finally show ?thesis unfolding p0246 j_def[symmetric] i[symmetric] .
  next
    case False
    then have i: "i = Suc (2 * j)" by (simp add: j_def)
    have "(lane i (vq31prod p vacc) :: 32 word) = lane (Suc (2 * j)) vq31prod1357"
      unfolding unfold using lane32_blend_CC[OF assms] False i by simp
    also have "\<dots> = ucast (drop_bit 32 (lane j vprod1357 + lane j vprod1357 :: 64 word))"
      unfolding vq31prod1357_def by (simp only: lane32_of_64 lane64_add[OF j])
    also have "\<dots> = ucast (drop_bit 31 (lane j vprod1357 :: 64 word))"
      by (rule double_drop)
    finally show ?thesis unfolding p1357 j_def[symmetric] i[symmetric] .
  qed
qed

lemma vrem_lane:
  assumes "i < 8"
  shows "(lane i (vrem p q) :: 32 word) =
         (lane i q AND lane (i mod 4) (remainder_mask p)) - (if sint (lane i q :: 32 word) < 0 then 1 else 0)"
  using assms
  by (simp add: vrem_def lane32_add lane_and lane32_broadcast lane32_cmpgt mm256_setzero_si256_def
        mm256_and_si256_def lane_zero)

lemma vscaled_lane:
  assumes "i < 8"
  shows "(lane i (vscaled p q) :: 32 word) =
         signed_drop_bit (unat (lane 0 (shift p) :: 64 word)) (lane i q) +
         (if sint (lane (i mod 4) (remainder_threshold p) :: 32 word) < sint (lane i (vrem p q) :: 32 word)
          then 1 else 0)"
  using assms
  by (simp add: vscaled_def lane32_sub lane32_sra lane32_cmpgt lane32_broadcast)

section \<open>Integer readings of the requantization steps\<close>

lemma sint32_bounds: "- 2147483648 \<le> sint (a :: 32 word)" "sint (a :: 32 word) < 2147483648"
  using sint_ge[of a] sint_lt[of a] by simp_all

lemma prod_bounds:
  fixes x y :: int
  assumes "- 2147483648 \<le> x" "x < 2147483648" "- 2147483648 \<le> y" "y < 2147483648"
  shows "- 4611686018427387904 \<le> x * y" "x * y \<le> 4611686018427387904"
proof -
  have "\<bar>x\<bar> \<le> 2147483648" "\<bar>y\<bar> \<le> 2147483648" using assms by simp_all
  then have "\<bar>x\<bar> * \<bar>y\<bar> \<le> 2147483648 * 2147483648"
    by (intro mult_mono) simp_all
  then have "\<bar>x * y\<bar> \<le> 4611686018427387904" by (simp add: abs_mult)
  then show "- 4611686018427387904 \<le> x * y" "x * y \<le> 4611686018427387904" by simp_all
qed

lemma prod_bound_strict:
  fixes x y :: int
  assumes "- 2147483648 \<le> x" "x < 2147483648" "- 2147483648 \<le> y" "y < 2147483648"
    and "\<not> (x = - 2147483648 \<and> y = - 2147483648)"
  shows "x * y \<le> 4611686016279904256"
proof -
  consider "- 2147483647 \<le> x" | "- 2147483647 \<le> y" using assms by linarith
  then show ?thesis
  proof cases
    case 1
    then have "\<bar>x\<bar> \<le> 2147483647" "\<bar>y\<bar> \<le> 2147483648" using assms by simp_all
    then have "\<bar>x\<bar> * \<bar>y\<bar> \<le> 2147483647 * 2147483648"
      by (intro mult_mono) simp_all
    then have "\<bar>x * y\<bar> \<le> 4611686016279904256" by (simp add: abs_mult)
    then show ?thesis by simp
  next
    case 2
    then have "\<bar>x\<bar> \<le> 2147483648" "\<bar>y\<bar> \<le> 2147483647" using assms by simp_all
    then have "\<bar>x\<bar> * \<bar>y\<bar> \<le> 2147483648 * 2147483647"
      by (intro mult_mono) simp_all
    then have "\<bar>x * y\<bar> \<le> 4611686016279904256" by (simp add: abs_mult)
    then show ?thesis by simp
  qed
qed

lemma round_q31: "round (real_of_int k / 2 ^ 31) = (k + 2 ^ 30) div 2 ^ 31"
proof -
  have "real_of_int k / 2 ^ 31 + 1 / 2 = real_of_int (k + 2 ^ 30) / real_of_int (2 ^ 31)"
    by (simp add: field_simps)
  then show ?thesis
    unfolding round_def by (simp only: floor_divide_of_int_eq)
qed

lemma q31_sint:
  fixes a m :: "32 word"
  shows "sint ((scast a :: 64 word) * scast m + 0x40000000) = sint a * sint m + 1073741824"
proof -
  have w: "(scast a :: 64 word) * scast m + 0x40000000 = word_of_int (sint a * sint m + 1073741824)"
    by (simp only: scast_eq of_int_mult of_int_add of_int_numeral)
  have b: "- 4611686018427387904 \<le> sint a * sint m" "sint a * sint m \<le> 4611686018427387904"
    by (rule prod_bounds[OF sint32_bounds sint32_bounds])+
  have "signed_take_bit 63 (sint a * sint m + 1073741824) = sint a * sint m + 1073741824"
    using b by (intro signed_take_bit_int_eq_self) simp_all
  then show ?thesis unfolding w sint_sbintrunc' by simp
qed

lemma q31_uint:
  fixes X :: "64 word"
  shows "uint (ucast (drop_bit 31 X) :: 32 word) = take_bit 32 (drop_bit 31 (sint X))"
  by (rule bit_eqI) (auto simp add: bit_simps)

lemma q31_sint32:
  fixes X :: "64 word"
  shows "sint (ucast (drop_bit 31 X) :: 32 word) = signed_take_bit 31 (drop_bit 31 (sint X))"
  by (rule bit_eqI) (auto simp add: bit_simps)

lemma lane_replicate:
  assumes "i < n" "Suc i * LENGTH('b) \<le> LENGTH('a)"
  shows "(lane i (unlanes (replicate n x) :: 'a::len word) :: 'b::len word) = x"
  using assms by (simp add: lane_unlanes)

lemma lane_uniform_params:
  "j < 4 \<Longrightarrow> (lane j (multiplier (uniform_params m r rmask thr s zp omin omax)) :: 32 word) = m"
  "k < 2 \<Longrightarrow> (lane k (rounding (uniform_params m r rmask thr s zp omin omax)) :: 64 word) = r"
  "j < 4 \<Longrightarrow> (lane j (remainder_mask (uniform_params m r rmask thr s zp omin omax)) :: 32 word) = rmask"
  "j < 4 \<Longrightarrow> (lane j (remainder_threshold (uniform_params m r rmask thr s zp omin omax)) :: 32 word) = thr"
  "k < 2 \<Longrightarrow> (lane k (shift (uniform_params m r rmask thr s zp omin omax)) :: 64 word) = s"
  "l < 8 \<Longrightarrow> (lane l (output_zero_point (uniform_params m r rmask thr s zp omin omax)) :: 16 word) = zp"
  "l < 8 \<Longrightarrow> (lane l (output_min (uniform_params m r rmask thr s zp omin omax)) :: 16 word) = omin"
  "l < 8 \<Longrightarrow> (lane l (output_max (uniform_params m r rmask thr s zp omin omax)) :: 16 word) = omax"
  by (simp_all add: uniform_params_def lane_replicate)

lemma lane_splat32: "i < 8 \<Longrightarrow> (lane i (splat32 x) :: 32 word) = x"
  by (simp add: splat32_def lane_replicate)

lemma lane_example_params:
  "j < 4 \<Longrightarrow> (lane j (multiplier example_params) :: 32 word) = 0x40000000"
  "k < 2 \<Longrightarrow> (lane k (rounding example_params) :: 64 word) = 0x40000000"
  "j < 4 \<Longrightarrow> (lane j (remainder_mask example_params) :: 32 word) = 1"
  "j < 4 \<Longrightarrow> (lane j (remainder_threshold example_params) :: 32 word) = 0"
  "k < 2 \<Longrightarrow> (lane k (shift example_params) :: 64 word) = 1"
  "l < 8 \<Longrightarrow> (lane l (output_zero_point example_params) :: 16 word) = 0"
  "l < 8 \<Longrightarrow> (lane l (output_min example_params) :: 16 word) = - 128"
  "l < 8 \<Longrightarrow> (lane l (output_max example_params) :: 16 word) = 127"
  by (simp_all add: example_params_def lane_uniform_params)

section \<open>Lanes of the narrowing and clamping steps\<close>

lemma lane16_packs_epi32:
  assumes "j < 4"
  shows "(lane j (mm_packs_epi32 a b) :: 16 word) = saturate16 (sint (lane j a :: 32 word))"
    and "(lane (4 + j) (mm_packs_epi32 a b) :: 16 word) = saturate16 (sint (lane j b :: 32 word))"
proof -
  let ?xs = "map (\<lambda>j. saturate16 (sint (lane j a :: 32 word))) [0..<4] @
             map (\<lambda>j. saturate16 (sint (lane j b :: 32 word))) [0..<4]"
  have "(lane j (mm_packs_epi32 a b) :: 16 word) = ?xs ! j"
    unfolding mm_packs_epi32_def using assms by (intro lane_unlanes) simp_all
  then show "(lane j (mm_packs_epi32 a b) :: 16 word) = saturate16 (sint (lane j a :: 32 word))"
    using assms by (simp add: nth_append)
  have "(lane (4 + j) (mm_packs_epi32 a b) :: 16 word) = ?xs ! (4 + j)"
    unfolding mm_packs_epi32_def using assms by (intro lane_unlanes) simp_all
  then show "(lane (4 + j) (mm_packs_epi32 a b) :: 16 word) = saturate16 (sint (lane j b :: 32 word))"
    using assms by (simp add: nth_append)
qed

lemma lane8_packs_epi16:
  assumes "l < 16"
  shows "(lane l (mm_packs_epi16 a b) :: 8 word) =
         saturate8 (sint (lane (l mod 8) (if l < 8 then a else b) :: 16 word))"
proof -
  have "(lane l (mm_packs_epi16 a b) :: 8 word) =
        (map (\<lambda>j. saturate8 (sint (lane j a :: 16 word))) [0..<8] @
         map (\<lambda>j. saturate8 (sint (lane j b :: 16 word))) [0..<8]) ! l"
    unfolding mm_packs_epi16_def using assms by (intro lane_unlanes) simp_all
  also have "\<dots> = saturate8 (sint (lane (l mod 8) (if l < 8 then a else b) :: 16 word))"
  proof (cases "l < 8")
    case True
    then show ?thesis by (simp add: nth_append)
  next
    case False
    then have "l - 8 < 8" "l mod 8 = l - 8" using assms by (simp_all add: mod_if)
    then show ?thesis using False by (simp add: nth_append)
  qed
  finally show ?thesis .
qed

lemma lane32_halves:
  assumes "j < 4"
  shows "(lane j (mm256_castsi256_si128 v) :: 32 word) = lane j v"
    and "(lane j (mm256_extracti128_si256 v 1) :: 32 word) = lane (4 + j) v"
proof -
  have "(lane j (lane 0 v :: 128 word) :: 32 word) = lane (0 * 4 + j) v"
    using assms by (intro lane_lane) simp_all
  then show "(lane j (mm256_castsi256_si128 v) :: 32 word) = lane j v"
    by (simp add: mm256_castsi256_si128_def lane_def)
  have "(lane j (lane 1 v :: 128 word) :: 32 word) = lane (1 * 4 + j) v"
    using assms by (intro lane_lane) simp_all
  then show "(lane j (mm256_extracti128_si256 v 1) :: 32 word) = lane (4 + j) v"
    by (simp add: mm256_extracti128_si256_def)
qed

lemma lane16_adds: "l < 8 \<Longrightarrow> (lane l (mm_adds_epi16 a b) :: 16 word) = saturate16 (sint (lane l a :: 16 word) + sint (lane l b :: 16 word))"
  by (simp add: mm_adds_epi16_def lane_lanewise2)
lemma lane16_max: "l < 8 \<Longrightarrow> (lane l (mm_max_epi16 a b) :: 16 word) = (if sint (lane l a :: 16 word) < sint (lane l b :: 16 word) then lane l b else lane l a)"
  by (simp add: mm_max_epi16_def lane_lanewise2)
lemma lane16_min: "l < 8 \<Longrightarrow> (lane l (mm_min_epi16 a b) :: 16 word) = (if sint (lane l b :: 16 word) < sint (lane l a :: 16 word) then lane l b else lane l a)"
  by (simp add: mm_min_epi16_def lane_lanewise2)

lemma sint_saturate16: "sint (saturate16 k) = max (- 32768) (min 32767 k)"
proof -
  have "sint (word_of_int k :: 16 word) = k" if "- 32768 \<le> k" "k \<le> 32767"
    unfolding sint_sbintrunc' using that by (simp add: signed_take_bit_int_eq_self)
  then show ?thesis by (simp add: saturate16_def)
qed

lemma sint_saturate8: "sint (saturate8 k) = max (- 128) (min 127 k)"
proof -
  have "sint (word_of_int k :: 8 word) = k" if "- 128 \<le> k" "k \<le> 127"
    unfolding sint_sbintrunc' using that by (simp add: signed_take_bit_int_eq_self)
  then show ?thesis by (simp add: saturate8_def)
qed

lemma vout_zero_point_lane:
  assumes "l < 8"
  shows "(lane l (vout_zero_point p vacc) :: 16 word) =
         saturate16 (sint (saturate16 (sint (lane l vacc :: 32 word))) +
                     sint (lane l (output_zero_point p) :: 16 word))"
proof -
  have "(lane l (mm_packs_epi32 (mm256_castsi256_si128 vacc) (mm256_extracti128_si256 vacc 1)) :: 16 word)
        = saturate16 (sint (lane l vacc :: 32 word))"
  proof (cases "l < 4")
    case True
    then show ?thesis by (simp only: lane16_packs_epi32(1) lane32_halves(1))
  next
    case False
    then have l: "l - 4 < 4" "4 + (l - 4) = l" using assms by simp_all
    show ?thesis
      using lane16_packs_epi32(2)[OF l(1), of "mm256_castsi256_si128 vacc" "mm256_extracti128_si256 vacc 1"]
        lane32_halves(2)[OF l(1), of vacc]
      by (simp only: l(2))
  qed
  then show ?thesis
    unfolding vout_zero_point_def Let_def using assms by (simp only: lane16_adds)
qed

lemma vout_lane:
  assumes "l < 8"
  shows "(lane l (vout p vacc) :: 8 word) =
         saturate8 (sint (let d = (lane l (vout_zero_point p vacc) :: 16 word);
                              lo = (lane l (output_min p) :: 16 word);
                              hi = (lane l (output_max p) :: 16 word);
                              e = (if sint d < sint lo then lo else d)
                          in if sint hi < sint e then hi else e))"
  using assms by (simp add: vout_def Let_def lane8_packs_epi16 lane16_min lane16_max)

section \<open>The Q31 product as an integer\<close>

lemma vq31prod_word:
  assumes "i < 8"
    and "\<forall>j<4. (lane j (multiplier p) :: 32 word) = m"
    and "\<forall>k<2. (lane k (rounding p) :: 64 word) = 0x40000000"
  shows "(lane i (vq31prod p vacc) :: 32 word) =
         ucast (drop_bit 31 ((scast (lane i vacc :: 32 word) :: 64 word) * scast m + 0x40000000))"
proof -
  have j: "2 * (i div 2 mod 2) < 4" "i div 2 mod 2 < 2" by simp_all
  show ?thesis
    using assms(2,3) j by (simp only: vq31prod_lane[OF assms(1)])
qed

lemma vq31prod_sint:
  assumes "i < 8"
    and "\<forall>j<4. (lane j (multiplier p) :: 32 word) = m"
    and "\<forall>k<2. (lane k (rounding p) :: 64 word) = 0x40000000"
    and ne: "\<not> (lane i vacc = (0x80000000 :: 32 word) \<and> m = 0x80000000)"
  shows "sint (lane i (vq31prod p vacc) :: 32 word) =
         (sint (lane i vacc :: 32 word) * sint m + 2 ^ 30) div 2 ^ 31"
proof -
  define a where "a = (lane i vacc :: 32 word)"
  define X where "X = (scast a :: 64 word) * scast m + 0x40000000"
  have lane: "(lane i (vq31prod p vacc) :: 32 word) = ucast (drop_bit 31 X)"
    unfolding X_def a_def by (rule vq31prod_word[OF assms(1-3)])
  have X: "sint X = sint a * sint m + 2 ^ 30"
    unfolding X_def by (simp add: q31_sint)
  have "\<not> (sint a = - 2147483648 \<and> sint m = - 2147483648)"
  proof
    assume "sint a = - 2147483648 \<and> sint m = - 2147483648"
    then have "sint a = sint (0x80000000 :: 32 word)" "sint m = sint (0x80000000 :: 32 word)"
      by simp_all
    then have "a = 0x80000000 \<and> m = 0x80000000"
      by (auto intro: signed_word_eqI)
    with ne show False by (simp add: a_def)
  qed
  then have hi: "sint a * sint m \<le> 4611686016279904256"
    by (intro prod_bound_strict sint32_bounds)
  have lo: "- 4611686018427387904 \<le> sint a * sint m"
    by (rule prod_bounds[OF sint32_bounds sint32_bounds])
  define E where "E = sint a * sint m + 2 ^ 30"
  have "(- 4611686017353646080) div 2147483648 \<le> E div 2147483648"
    using lo unfolding E_def by (intro zdiv_mono1) simp_all
  then have lo': "- 2147483648 \<le> E div 2147483648" by simp
  have "E div 2147483648 \<le> 4611686017353646080 div 2147483648"
    using hi unfolding E_def by (intro zdiv_mono1) simp_all
  then have hi': "E div 2147483648 < 2147483648" by simp
  have "sint (lane i (vq31prod p vacc) :: 32 word) = signed_take_bit 31 (E div 2 ^ 31)"
    unfolding lane q31_sint32 X E_def by (simp add: drop_bit_eq_div)
  also have "\<dots> = E div 2 ^ 31"
    using lo' hi' by (intro signed_take_bit_int_eq_self) simp_all
  finally show ?thesis unfolding E_def a_def .
qed

section \<open>Error bounds of the two rounding steps\<close>

lemma round_shift_error:
  fixes P :: int and s :: nat
  defines "c \<equiv> (if (2 ^ s - 1) div 2 < P mod 2 ^ s - (if P < 0 then 1 else 0) then 1 else 0 :: int)"
  shows "2 * \<bar>(P div 2 ^ s + c) * 2 ^ s - P\<bar> \<le> 2 ^ s"
proof (cases s)
  case 0
  then show ?thesis by (simp add: c_def)
next
  case (Suc t)
  define T :: int where "T = 2 ^ t"
  define r where "r = P mod 2 ^ s"
  have Z: "(2 :: int) ^ s = 2 * T" by (simp add: Suc T_def)
  have T: "1 \<le> T" by (simp add: T_def)
  have thr: "((2 :: int) ^ s - 1) div 2 = T - 1" unfolding Z by simp
  have r: "0 \<le> r" "r < 2 * T" unfolding r_def Z[symmetric] by simp_all
  have d: "(P div 2 ^ s) * 2 ^ s = P - r" unfolding r_def by (simp add: algebra_simps minus_mod_eq_mult_div)
  have "(P div 2 ^ s + c) * 2 ^ s - P = c * (2 * T) - r"
    using d by (simp add: algebra_simps Z)
  moreover have "2 * \<bar>c * (2 * T) - r\<bar> \<le> 2 * T"
    using r T unfolding c_def thr r_def[symmetric] by (auto split: if_splits)
  ultimately show ?thesis by (simp add: Z)
qed

lemma q31_error:
  fixes K :: int
  shows "\<bar>((K + 2 ^ 30) div 2 ^ 31) * 2 ^ 31 - K\<bar> \<le> 2 ^ 30"
proof -
  define r where "r = (K + 2 ^ 30) mod 2 ^ 31"
  have r: "0 \<le> r" "r < 2 ^ 31" unfolding r_def by simp_all
  have "((K + 2 ^ 30) div 2 ^ 31) * 2 ^ 31 = K + 2 ^ 30 - r"
    unfolding r_def by (simp add: algebra_simps minus_mod_eq_mult_div)
  then show ?thesis using r by simp
qed

lemma two_step_error:
  fixes K P S :: int and s :: nat
  assumes "\<bar>P * 2 ^ 31 - K\<bar> \<le> 2 ^ 30" "2 * \<bar>S * 2 ^ s - P\<bar> \<le> 2 ^ s"
  shows "\<bar>real_of_int S - real_of_int K / 2 ^ (31 + s)\<bar> \<le> 1"
proof -
  define Z :: int where "Z = 2 ^ s"
  define U where "U = S * Z"
  have Z: "1 \<le> Z" by (simp add: Z_def)
  have 1: "2 * \<bar>U - P\<bar> \<le> Z" using assms(2) by (simp add: U_def Z_def)
  have "U * 2147483648 - K = (U - P) * 2147483648 + (P * 2147483648 - K)"
    by (simp add: algebra_simps)
  then have "\<bar>U * 2147483648 - K\<bar> \<le> \<bar>(U - P) * 2147483648\<bar> + \<bar>P * 2147483648 - K\<bar>"
    by (simp only: abs_triangle_ineq)
  also have "\<dots> = \<bar>U - P\<bar> * 2147483648 + \<bar>P * 2147483648 - K\<bar>"
    unfolding abs_mult by simp
  also have "\<dots> \<le> Z * 1073741824 + 1073741824" using 1 assms(1) by simp
  also have "\<dots> \<le> Z * 2147483648" using Z by simp
  finally have "\<bar>S * (Z * 2147483648) - K\<bar> \<le> Z * 2147483648"
    by (simp add: U_def algebra_simps)
  then have "\<bar>real_of_int (S * (Z * 2147483648) - K)\<bar> \<le> real_of_int (Z * 2147483648)"
    by (metis of_int_abs of_int_le_iff)
  moreover have "real_of_int (Z * 2147483648) = 2 ^ (31 + s)"
    by (simp add: Z_def power_add)
  moreover have "real_of_int S - real_of_int K / 2 ^ (31 + s) =
        real_of_int (S * (Z * 2147483648) - K) / 2 ^ (31 + s)"
    by (simp add: Z_def power_add field_simps)
  ultimately show ?thesis
    by (simp add: abs_divide divide_le_eq)
qed

lemma sint_and_mask:
  fixes w :: "32 word"
  assumes "s \<le> 31"
  shows "sint (w AND mask s) = sint w mod 2 ^ s"
proof -
  have "sint (w AND mask s) = take_bit s (sint w)"
    using assms by (intro bit_eqI) (auto simp add: bit_simps)
  then show ?thesis by (simp add: take_bit_eq_mod)
qed

lemma sint_threshold:
  assumes "s \<le> 31"
  shows "sint (drop_bit 1 (mask s :: 32 word)) = (2 ^ s - 1) div 2"
proof -
  have "sint (drop_bit 1 (mask s :: 32 word)) = drop_bit 1 (mask s :: int)"
    using assms by (intro bit_eqI) (auto simp add: bit_simps)
  then show ?thesis by (simp add: mask_eq_exp_minus_1 drop_bit_eq_div)
qed

lemma sint_sub_small:
  fixes x :: "32 word"
  assumes "0 \<le> sint x"
  shows "sint (x - (if b then 1 else 0)) = sint x - (if b then 1 else 0)"
proof -
  have "sint x < 2147483648" by (rule sint32_bounds)
  then have "signed_take_bit 31 (sint x - 1) = sint x - 1"
    using assms by (intro signed_take_bit_int_eq_self) simp_all
  then show ?thesis by (cases b) (simp_all add: sint_word_ariths)
qed

lemma sint_add_small:
  fixes x :: "32 word"
  assumes "b \<Longrightarrow> sint x < 2147483647"
  shows "sint (x + (if b then 1 else 0)) = sint x + (if b then 1 else 0)"
proof (cases b)
  case True
  have "- 2147483648 \<le> sint x" by (rule sint32_bounds)
  then have "signed_take_bit 31 (sint x + 1) = sint x + 1"
    using assms True by (intro signed_take_bit_int_eq_self) simp_all
  then show ?thesis using True by (simp add: sint_word_ariths)
next
  case False
  then show ?thesis by simp
qed

lemma vscaled_sint:
  assumes "i < 8"
    and s: "unat (lane 0 (shift p) :: 64 word) = s" "s \<le> 31"
    and mk: "\<forall>j<4. (lane j (remainder_mask p) :: 32 word) = mask s"
    and th: "\<forall>j<4. (lane j (remainder_threshold p) :: 32 word) = drop_bit 1 (mask s)"
  shows "sint (lane i (vscaled p q) :: 32 word) =
         sint (lane i q :: 32 word) div 2 ^ s +
         (if (2 ^ s - 1) div 2 < sint (lane i q :: 32 word) mod 2 ^ s -
               (if sint (lane i q :: 32 word) < 0 then 1 else 0) then 1 else 0)"
proof -
  define w where "w = (lane i q :: 32 word)"
  define P where "P = sint w"
  have i4: "i mod 4 < 4" by simp
  have rem_w: "(lane i (vrem p q) :: 32 word) = (w AND mask s) - (if P < 0 then 1 else 0)"
    unfolding vrem_lane[OF assms(1)] w_def P_def using mk i4 by simp
  have m: "sint (w AND mask s) = P mod 2 ^ s"
    unfolding P_def by (rule sint_and_mask[OF s(2)])
  have rem: "sint (lane i (vrem p q) :: 32 word) = P mod 2 ^ s - (if P < 0 then 1 else 0)"
    unfolding rem_w using sint_sub_small[of "w AND mask s" "P < 0"] m by simp
  have thr: "sint (lane (i mod 4) (remainder_threshold p) :: 32 word) = (2 ^ s - 1) div 2"
    using th i4 sint_threshold[OF s(2)] by simp
  define b where "b \<longleftrightarrow> (2 ^ s - 1) div 2 < P mod 2 ^ s - (if P < 0 then 1 else 0)"
  have sc_w: "(lane i (vscaled p q) :: 32 word) = signed_drop_bit s w + (if b then 1 else 0)"
    unfolding vscaled_lane[OF assms(1)] thr rem s(1) w_def[symmetric] b_def ..
  have sh: "sint (signed_drop_bit s w) = P div 2 ^ s"
    unfolding P_def by (simp add: sint_signed_drop_bit_eq drop_bit_eq_div)
  have small: "sint (signed_drop_bit s w) < 2147483647" if b
  proof -
    have "s \<noteq> 0"
    proof
      assume "s = 0"
      then show False using that unfolding b_def by (simp split: if_splits)
    qed
    then have two: "(2::int) \<le> 2 ^ s"
      by (cases s) simp_all
    show ?thesis
    proof (cases "P < 0")
      case True
      then have "P div 2 ^ s < 0" by (intro div_neg_pos_less0) simp_all
      then show ?thesis unfolding sh by simp
    next
      case False
      then have "P div 2 ^ s \<le> P div 2" using two by (intro zdiv_mono2) simp_all
      moreover have "P < 2147483648" unfolding P_def by (rule sint32_bounds)
      ultimately show ?thesis unfolding sh by simp
    qed
  qed
  have "sint (lane i (vscaled p q) :: 32 word) = P div 2 ^ s + (if b then 1 else 0)"
    unfolding sc_w using sint_add_small[of b "signed_drop_bit s w"] small sh by simp
  then show ?thesis unfolding b_def P_def w_def .
qed

lemma rounding_error_lane:
  assumes "i < 8" "(lane i a :: 32 word) = lane i b"
  shows "rounding_error p a i = rounding_error p b i"
proof -
  have "(lane i (vq31prod p a) :: 32 word) = lane i (vq31prod p b)"
    unfolding vq31prod_lane[OF assms(1)] assms(2) ..
  then have "(lane i (vscaled p (vq31prod p a)) :: 32 word) = lane i (vscaled p (vq31prod p b))"
    unfolding vscaled_lane[OF assms(1)] vrem_lane[OF assms(1)] by simp
  then show ?thesis unfolding rounding_error_def assms(2) by simp
qed

lemma rounding_error_bound:
  assumes "i < 8"
    and mu: "\<forall>j<4. (lane j (multiplier p) :: 32 word) = m"
    and ro: "\<forall>k<2. (lane k (rounding p) :: 64 word) = 0x40000000"
    and s: "unat (lane 0 (shift p) :: 64 word) \<le> 31"
    and mk: "\<forall>j<4. (lane j (remainder_mask p) :: 32 word) = mask (unat (lane 0 (shift p) :: 64 word))"
    and th: "\<forall>j<4. (lane j (remainder_threshold p) :: 32 word) =
               drop_bit 1 (mask (unat (lane 0 (shift p) :: 64 word)))"
    and ne: "(lane i v :: 32 word) \<noteq> 0x80000000"
  shows "\<bar>rounding_error p v i\<bar> \<le> 1"
proof -
  define s where "s = unat (lane 0 (shift p) :: 64 word)"
  define K where "K = sint (lane i v :: 32 word) * sint m"
  define P where "P = sint (lane i (vq31prod p v) :: 32 word)"
  define S where "S = sint (lane i (vscaled p (vq31prod p v)) :: 32 word)"
  have P: "P = (K + 2 ^ 30) div 2 ^ 31"
    unfolding P_def K_def using ne by (intro vq31prod_sint[OF assms(1) mu ro]) simp
  have S: "S = P div 2 ^ s +
         (if (2 ^ s - 1) div 2 < P mod 2 ^ s - (if P < 0 then 1 else 0) then 1 else 0)"
    unfolding S_def P_def
    by (rule vscaled_sint[OF assms(1) s_def[symmetric] s[folded s_def] mk[folded s_def] th[folded s_def]])
  have 1: "\<bar>P * 2 ^ 31 - K\<bar> \<le> 2 ^ 30" unfolding P by (rule q31_error)
  have 2: "2 * \<bar>S * 2 ^ s - P\<bar> \<le> 2 ^ s" unfolding S by (rule round_shift_error)
  have m0: "(lane 0 (multiplier p) :: 32 word) = m" using mu by simp
  show ?thesis
    unfolding rounding_error_def m0 s_def[symmetric] S_def[symmetric] K_def[symmetric]
    by (rule two_step_error[OF 1 2])
qed

section \<open>The accesses of a tile\<close>

lemma accumulate_tap_eq:
  "accumulate_tap w k (vacc, ptrs, s) =
     (mm256_add_epi32 vacc
        (mm256_mullo_epi32 (mm256_cvtepi8_epi32 (unlanes (load_bytes s (ptrs ! k) 8)))
           (mm256_cvtepi8_epi32 (unlanes (load_bytes s (w + 32 + 8 * of_nat k) 8)))),
      ptrs[k := ptrs ! k + 8],
      s\<lparr>trace := trace s @ [Load (InputRow k) (ptrs ! k) 8,
                              Load (PackedWeights k) (w + 32 + 8 * of_nat k) 8]\<rparr>)"
  by (simp add: accumulate_tap_def mm_loadl_epi64_def logged_def load_bytes_def)

lemma fold_taps:
  assumes "distinct ks"
  shows "\<exists>vacc'. fold (accumulate_tap w) ks (vacc, ptrs, s) =
     (vacc', fold (\<lambda>k ps. ps[k := ps ! k + 8]) ks ptrs,
      s\<lparr>trace := trace s @ concat (map (\<lambda>k. [Load (InputRow k) (ptrs ! k) 8,
                              Load (PackedWeights k) (w + 32 + 8 * of_nat k) 8]) ks)\<rparr>)"
  using assms
proof (induction ks arbitrary: vacc ptrs s)
  case Nil
  then show ?case by simp
next
  case (Cons k ks)
  define ptrs1 where "ptrs1 = ptrs[k := ptrs ! k + 8]"
  define s1 where "s1 = s\<lparr>trace := trace s @ [Load (InputRow k) (ptrs ! k) 8,
                              Load (PackedWeights k) (w + 32 + 8 * of_nat k) 8]\<rparr>"
  have nth: "ptrs1 ! j = ptrs ! j" if "j \<in> set ks" for j
    unfolding ptrs1_def using Cons.prems that by (intro nth_list_update_neq) auto
  have m: "map (\<lambda>j. [Load (InputRow j) (ptrs1 ! j) 8,
                      Load (PackedWeights j) (w + 32 + 8 * of_nat j) 8]) ks =
           map (\<lambda>j. [Load (InputRow j) (ptrs ! j) 8,
                      Load (PackedWeights j) (w + 32 + 8 * of_nat j) 8]) ks"
    using nth by simp
  from Cons.prems have "distinct ks" by simp
  from Cons.IH[OF this, of _ ptrs1 s1] obtain vacc' where
    "fold (accumulate_tap w) ks
       (mm256_add_epi32 vacc
        (mm256_mullo_epi32 (mm256_cvtepi8_epi32 (unlanes (load_bytes s (ptrs ! k) 8)))
           (mm256_cvtepi8_epi32 (unlanes (load_bytes s (w + 32 + 8 * of_nat k) 8)))), ptrs1, s1) =
     (vacc', fold (\<lambda>k ps. ps[k := ps ! k + 8]) ks ptrs1,
      s1\<lparr>trace := trace s1 @ concat (map (\<lambda>k. [Load (InputRow k) (ptrs1 ! k) 8,
                              Load (PackedWeights k) (w + 32 + 8 * of_nat k) 8]) ks)\<rparr>)"
    by blast
  then show ?case
    unfolding m by (simp add: accumulate_tap_eq ptrs1_def[symmetric] s1_def[symmetric]) (simp add: s1_def)
qed

lemma fold_advance_length [simp]:
  "length (fold (\<lambda>k ps. ps[k := ps ! k + (8 :: addr)]) ks ptrs) = length ptrs"
  by (induction ks arbitrary: ptrs) simp_all

lemma fold_advance_nth:
  assumes "distinct ks" "j < length ptrs"
  shows "fold (\<lambda>k ps. ps[k := ps ! k + (8 :: addr)]) ks ptrs ! j =
         (if j \<in> set ks then ptrs ! j + 8 else ptrs ! j)"
  using assms
proof (induction ks arbitrary: ptrs)
  case Nil
  then show ?case by simp
next
  case (Cons k ks)
  have ne: "k \<noteq> j" if "j \<in> set ks" using Cons.prems that by auto
  show ?case
  proof (cases "j \<in> set ks")
    case True
    then show ?thesis using Cons ne[OF True] by simp
  next
    case False
    then show ?thesis using Cons by (simp add: nth_list_update)
  qed
qed

lemma fold_advance_all:
  "fold (\<lambda>k ps. ps[k := ps ! k + (8 :: addr)]) [0..<length ptrs] ptrs = map (\<lambda>a. a + 8) ptrs"
  by (rule nth_equalityI) (simp_all add: fold_advance_nth)

lemma accumulate_eq:
  assumes "length ptrs = 9"
  shows "accumulate w ptrs s =
         (fst (accumulate w ptrs s), map (\<lambda>a. a + 8) ptrs,
          s\<lparr>trace := trace s @ tile_loads w ptrs\<rparr>)"
proof -
  define s0 where "s0 = s\<lparr>trace := trace s @ [Load PackedBias w 32]\<rparr>"
  obtain vacc' where
    "fold (accumulate_tap w) [0..<9] (unlanes (load_bytes s w 32), ptrs, s0) =
     (vacc', fold (\<lambda>k ps. ps[k := ps ! k + 8]) [0..<9] ptrs,
      s0\<lparr>trace := trace s0 @ concat (map (\<lambda>k. [Load (InputRow k) (ptrs ! k) 8,
                              Load (PackedWeights k) (w + 32 + 8 * of_nat k) 8]) [0..<9])\<rparr>)"
    using fold_taps[of "[0..<9]" w _ ptrs s0] by auto
  moreover have "fold (\<lambda>k ps. ps[k := ps ! k + 8]) [0..<9] ptrs = map (\<lambda>a. a + 8) ptrs"
    using fold_advance_all[of ptrs] assms by simp
  ultimately have "accumulate w ptrs s =
         (vacc', map (\<lambda>a. a + 8) ptrs, s\<lparr>trace := trace s @ tile_loads w ptrs\<rparr>)"
    by (simp add: accumulate_def mm256_loadu_si256_def logged_def s0_def tile_loads_def)
  then show ?thesis by simp
qed

lemma stores_append [simp]: "stores (xs @ ys) = stores xs @ stores ys"
  by (induction xs rule: stores.induct) simp_all

lemma row_loads_append [simp]: "row_loads k (xs @ ys) = row_loads k xs @ row_loads k ys"
  by (induction k xs rule: row_loads.induct) simp_all

lemma stores_tile_loads [simp]: "stores (tile_loads w ptrs) = []"
proof -
  have "stores (concat (map (\<lambda>k. [Load (InputRow k) (ptrs ! k) 8,
                         Load (PackedWeights k) (w + 32 + 8 * of_nat k) 8]) ks)) = []" for ks
    by (induction ks) simp_all
  then show ?thesis by (simp add: tile_loads_def)
qed

lemma row_loads_tile_loads:
  assumes "k < 9"
  shows "row_loads k (tile_loads w ptrs) = [ptrs ! k]"
proof -
  have "row_loads k (concat (map (\<lambda>k. [Load (InputRow k) (ptrs ! k) 8,
                         Load (PackedWeights k) (w + 32 + 8 * of_nat k) 8]) ks)) =
        (if k \<in> set ks then [ptrs ! k] else [])" if "distinct ks" for ks
    using that by (induction ks) auto
  from this[of "[0..<9]"] show ?thesis using assms by (simp add: tile_loads_def)
qed

lemma trace_store_bytes [simp]: "trace (store_bytes a bs s) = trace s @ [Store a (length bs)]"
  by (simp add: store_bytes_def)

lemma full_tile_eq:
  assumes "length ptrs = 9"
  shows "full_tile p (w, ptrs, out, s) =
         (w + 104, map (\<lambda>a. a + 8) ptrs, out + 8,
          mm_storel_epi64 out (requantize p (fst (accumulate w ptrs s)))
            (s\<lparr>trace := trace s @ tile_loads w ptrs\<rparr>))"
proof -
  obtain vacc where a: "accumulate w ptrs s =
      (vacc, map (\<lambda>a. a + 8) ptrs, s\<lparr>trace := trace s @ tile_loads w ptrs\<rparr>)"
    using accumulate_eq[OF assms] by blast
  show ?thesis by (simp add: full_tile_def a)
qed

lemma tiles_trace:
  assumes "length ptrs = 9"
  shows "\<exists>s'. tiles p c (w, ptrs, out, s) =
           (c mod 8, w + 104 * of_nat (c div 8), map (\<lambda>a. a + 8 * of_nat (c div 8)) ptrs,
            out + 8 * of_nat (c div 8), s') \<and>
          trace s' = trace s @ concat (map (tile_accesses w ptrs out) [0..<c div 8])"
  using assms
proof (induction "c div 8" arbitrary: c w ptrs out s)
  case 0
  then have "c < 8" by simp
  then show ?case by (subst tiles.simps) simp
next
  case (Suc n)
  have c3: "c div 8 = Suc n" using Suc.hyps(2) by simp
  have c1: "8 \<le> c"
  proof (rule ccontr)
    assume "\<not> 8 \<le> c"
    then have "c div 8 = 0" by simp
    with c3 show False by simp
  qed
  have c2: "n = (c - 8) div 8" using c1 c3 by (simp add: le_div_geq)
  have c4: "(c - 8) mod 8 = c mod 8" using c1 by (simp add: le_mod_geq)
  note c = c1 c2 c3 c4
  define s1 where "s1 = mm_storel_epi64 out (requantize p (fst (accumulate w ptrs s)))
            (s\<lparr>trace := trace s @ tile_loads w ptrs\<rparr>)"
  have t1: "trace s1 = trace s @ tile_accesses w ptrs out 0"
    by (simp add: s1_def mm_storel_epi64_def tile_accesses_def)
  have len: "length (map (\<lambda>a. a + 8) ptrs) = 9" using Suc.prems by simp
  from Suc.hyps(1)[OF c(2) len, where w="w + 104" and out="out + 8" and s=s1] obtain s' where
    s': "tiles p (c - 8) (w + 104, map (\<lambda>a. a + 8) ptrs, out + 8, s1) =
           ((c - 8) mod 8, w + 104 + 104 * of_nat n, map (\<lambda>a. a + 8 * of_nat n) (map (\<lambda>a. a + 8) ptrs),
            out + 8 + 8 * of_nat n, s')"
      "trace s' = trace s1 @ concat (map (tile_accesses (w + 104) (map (\<lambda>a. a + 8) ptrs) (out + 8)) [0..<n])"
    unfolding c(2)[symmetric] by blast
  have shift: "tile_accesses (w + 104) (map (\<lambda>a. a + 8) ptrs) (out + 8) t = tile_accesses w ptrs out (Suc t)" for t
    by (simp add: tile_accesses_def algebra_simps comp_def)
  have "[0..<Suc n] = 0 # map Suc [0..<n]"
    by (simp add: upt_conv_Cons map_Suc_upt del: upt_Suc)
  then have tr: "trace s' = trace s @ concat (map (tile_accesses w ptrs out) [0..<Suc n])"
    unfolding s'(2) t1 shift by (simp add: comp_def del: upt_Suc)
  have "tiles p c (w, ptrs, out, s) = tiles p (c - 8) (w + 104, map (\<lambda>a. a + 8) ptrs, out + 8, s1)"
    using c(1) by (subst tiles.simps) (simp add: full_tile_eq[OF Suc.prems] s1_def)
  then show ?case
    unfolding s'(1) c(3,4) using tr by (simp add: algebra_simps comp_def)
qed

lemma load_bytes_trace [simp]: "load_bytes (s\<lparr>trace := t\<rparr>) a n = load_bytes s a n"
  by (simp add: load_bytes_def)

lemma indirection_entry_trace [simp]: "indirection_entry (s\<lparr>trace := t\<rparr>) input k = indirection_entry s input k"
  by (simp add: indirection_entry_def)

lemma load_taps_Inr:
  assumes "load_taps input input_offset zero ks s = Inr (ptrs, s1)"
  shows "ptrs = map (\<lambda>k. tap_pointer input_offset zero (indirection_entry s input k)) ks \<and>
         s1 = s\<lparr>trace := trace s @ map (\<lambda>k. Load (IndirectionEntry k) (input + 8 * of_nat k) 8) ks\<rparr>"
  using assms
proof (induction ks arbitrary: s ptrs s1)
  case Nil
  then show ?case by simp
next
  case (Cons k ks)
  define s0 where "s0 = s\<lparr>trace := trace s @ [Load (IndirectionEntry k) (input + 8 * of_nat k) 8]\<rparr>"
  from Cons.prems obtain ptrs' where
    r: "load_taps input input_offset zero ks s0 = Inr (ptrs', s1)"
       "ptrs = tap_pointer input_offset zero (indirection_entry s input k) # ptrs'"
    by (auto simp add: load_ptr_def logged_def indirection_entry_def s0_def
          split: if_splits sum.splits)
  from Cons.IH[OF r(1)] show ?case
    unfolding r(2) by (simp add: s0_def)
qed

lemma stores_map_Load [simp]: "stores (map (\<lambda>k. Load (r k) (a k) (n k)) ks) = []"
  by (induction ks) simp_all

lemma row_loads_map_entry [simp]:
  "row_loads k (map (\<lambda>k. Load (IndirectionEntry k) (a k) n) ks) = []"
  by (induction ks) simp_all

lemma tail_tile_trace:
  assumes "length ptrs = 9"
  shows "trace (snd (tail_tile p c (w, ptrs, out, s))) =
           trace s @ tile_loads w ptrs @ map (\<lambda>(a, n). Store a n) (tail_stores c out)"
    and "fst (tail_tile p c (w, ptrs, out, s)) =
           out + (if c AND 4 \<noteq> 0 then 4 else 0) + (if c AND 2 \<noteq> 0 then 2 else 0) +
                 (if c AND 1 \<noteq> 0 then 1 else 0)"
proof -
  obtain vacc where a: "accumulate w ptrs s =
      (vacc, map (\<lambda>a. a + 8) ptrs, s\<lparr>trace := trace s @ tile_loads w ptrs\<rparr>)"
    using accumulate_eq[OF assms] by blast
  show "trace (snd (tail_tile p c (w, ptrs, out, s))) =
           trace s @ tile_loads w ptrs @ map (\<lambda>(a, n). Store a n) (tail_stores c out)"
    by (simp add: tail_tile_def a Let_def tail_stores_def store_u32_def store_u16_def store_i8_def)
  show "fst (tail_tile p c (w, ptrs, out, s)) =
           out + (if c AND 4 \<noteq> 0 then 4 else 0) + (if c AND 2 \<noteq> 0 then 2 else 0) +
                 (if c AND 1 \<noteq> 0 then 1 else 0)"
    by (simp add: tail_tile_def a Let_def)
qed

lemma stores_map_Store [simp]: "stores (map (\<lambda>(a, n). Store a n) xs) = xs"
  by (induction xs) auto

lemma row_loads_map_Store [simp]: "row_loads k (map (\<lambda>(a, n). Store a n) xs) = []"
  by (induction xs) auto

lemma stores_tile_accesses:
  "stores (concat (map (tile_accesses w ptrs out) ts)) = map (\<lambda>t. (out + 8 * of_nat t, 8)) ts"
  by (induction ts) (simp_all add: tile_accesses_def)

lemma row_loads_tile_accesses:
  assumes "k < 9" "length ptrs = 9"
  shows "row_loads k (concat (map (tile_accesses w ptrs out) ts)) = map (\<lambda>t. ptrs ! k + 8 * of_nat t) ts"
  using assms by (induction ts) (simp_all add: tile_accesses_def row_loads_tile_loads)

lemma tail_advance:
  assumes "c < 8"
  shows "(if c AND 4 \<noteq> 0 then 4 else 0) + (if c AND 2 \<noteq> 0 then 2 else 0) +
         (if c AND 1 \<noteq> 0 then 1 else (0 :: addr)) = of_nat c"
  using lt8_cases[OF assms] by auto

lemma tail_stores_0 [simp]: "tail_stores 0 out = []"
  by (simp add: tail_stores_def)

lemma column_Inr:
  assumes "column p channels weights output_increment input_offset zero input output s = Inr (out', s')"
  defines "ptrs \<equiv> map (\<lambda>k. tap_pointer input_offset zero (indirection_entry s input k)) [0..<9]"
  shows "out' = output + of_nat channels + output_increment"
    and "stores (trace s') = stores (trace s) @ column_stores channels output"
    and "k < 9 \<Longrightarrow> row_loads k (trace s') =
           row_loads k (trace s) @ map (\<lambda>t. ptrs ! k + 8 * of_nat t) [0..<(channels + 7) div 8]"
proof -
  define n where "n = channels div 8"
  define r where "r = channels mod 8"
  have r8: "r < 8" by (simp add: r_def)
  have ch: "channels = 8 * n + r" by (simp add: n_def r_def)
  from assms(1) obtain ptrs0 s1 where
    lt: "load_taps input input_offset zero [0..<9] s = Inr (ptrs0, s1)"
    by (auto simp add: column_def split: sum.splits)
  from load_taps_Inr[OF lt] have
    p0: "ptrs0 = ptrs" and
    s1: "s1 = s\<lparr>trace := trace s @ map (\<lambda>k. Load (IndirectionEntry k) (input + 8 * of_nat k) 8) [0..<9]\<rparr>"
    unfolding ptrs_def by simp_all
  have len: "length ptrs = 9" by (simp add: ptrs_def)
  from tiles_trace[OF len, where p=p and c=channels and w=weights and out="output" and s=s1] obtain s2 where
    t: "tiles p channels (weights, ptrs, output, s1) =
           (r, weights + 104 * of_nat n, map (\<lambda>a. a + 8 * of_nat n) ptrs, output + 8 * of_nat n, s2)"
    and ts: "trace s2 = trace s1 @ concat (map (tile_accesses weights ptrs output) [0..<n])"
    unfolding n_def r_def by blast
  define ptrs' where "ptrs' = map (\<lambda>a. a + 8 * of_nat n) ptrs"
  have len': "length ptrs' = 9" by (simp add: ptrs'_def len)
  define res where "res = (if r \<noteq> 0
      then tail_tile p r (weights + 104 * of_nat n, ptrs', output + 8 * of_nat n, s2)
      else (output + 8 * of_nat n, s2))"
  have "column p channels weights output_increment input_offset zero input output s =
          Inr (fst res + output_increment, snd res)"
    unfolding column_def lt p0 res_def ptrs'_def
    by (simp add: t split: prod.splits)
  with assms(1) have res: "out' = fst res + output_increment" "s' = snd res"
    by simp_all
  have fst_res: "fst res = output + 8 * of_nat n + of_nat r"
    unfolding res_def using tail_tile_trace(2)[OF len'] tail_advance[OF r8]
    by (simp add: add.assoc)
  have tr_res: "trace (snd res) = trace s2 @
      (if r \<noteq> 0 then tile_loads (weights + 104 * of_nat n) ptrs' @
          map (\<lambda>(a, n). Store a n) (tail_stores r (output + 8 * of_nat n)) else [])"
    unfolding res_def using tail_tile_trace(1)[OF len'] by simp
  show "out' = output + of_nat channels + output_increment"
    unfolding res(1) fst_res ch by simp
  show "stores (trace s') = stores (trace s) @ column_stores channels output"
    unfolding res(2) tr_res ts s1 column_stores_def n_def[symmetric] r_def[symmetric]
    by (simp add: stores_tile_accesses)
  show "row_loads k (trace s') =
           row_loads k (trace s) @ map (\<lambda>t. ptrs ! k + 8 * of_nat t) [0..<(channels + 7) div 8]"
    if k: "k < 9"
  proof (cases "r = 0")
    case True
    then have "(channels + 7) div 8 = n" unfolding ch by simp
    then show ?thesis
      unfolding res(2) tr_res ts s1 using True
      by (simp add: row_loads_tile_accesses[OF k len])
  next
    case False
    then have "(channels + 7) div 8 = Suc n" unfolding ch using r8 by simp
    moreover have "ptrs' ! k = ptrs ! k + 8 * of_nat n"
      unfolding ptrs'_def using k len by simp
    ultimately show ?thesis
      unfolding res(2) tr_res ts s1 using False
      by (simp add: row_loads_tile_accesses[OF k len] row_loads_tile_loads[OF k])
  qed
qed

lemma fold_store_other:
  assumes "\<forall>j\<in>set js. x \<noteq> a + of_nat j"
  shows "fold (\<lambda>j m. m(a + of_nat j := f j)) js m x = m x"
  using assms by (induction js arbitrary: m) simp_all

lemma fold_store_at:
  assumes "j < n" "n \<le> 2 ^ 64"
  shows "fold (\<lambda>j m. m((a :: addr) + of_nat j := f j)) [0..<n] m (a + of_nat j) = f j"
  using assms
proof (induction n)
  case 0
  then show ?case by simp
next
  case (Suc n)
  show ?case
  proof (cases "j = n")
    case True
    then show ?thesis by simp
  next
    case False
    then have j: "j < n" using Suc.prems by simp
    have "(of_nat j :: addr) \<noteq> of_nat n"
      using j Suc.prems(2) by (simp add: word_of_nat_eq_iff take_bit_nat_eq_self)
    then show ?thesis using Suc.IH[OF j] Suc.prems(2) by simp
  qed
qed

lemma mem_store_bytes_other:
  assumes "\<forall>j<length bs. x \<noteq> a + of_nat j"
  shows "mem (store_bytes a bs s) x = mem s x"
  using assms by (simp add: store_bytes_def fold_store_other)

lemma mem_store_bytes_at:
  assumes "j < length bs" "length bs \<le> 8"
  shows "mem (store_bytes a bs s) (a + of_nat j) = bs ! j"
  using assms by (simp add: store_bytes_def fold_store_at)

lemma touched_append [simp]: "touched (es @ fs) x \<longleftrightarrow> touched es x \<or> touched fs x"
  by (auto simp add: touched_def)

lemma touched_Nil [simp]: "\<not> touched [] x"
  by (simp add: touched_def)

lemma extends_refl [simp]: "extends s s"
  by (simp add: extends_def)

lemma extends_trans:
  assumes "extends s s1" "extends s1 s2"
  shows "extends s s2"
proof -
  from assms(1) obtain es where 1: "trace s1 = trace s @ es" "\<forall>x. \<not> touched es x \<longrightarrow> mem s1 x = mem s x"
    unfolding extends_def by blast
  from assms(2) obtain fs where 2: "trace s2 = trace s1 @ fs" "\<forall>x. \<not> touched fs x \<longrightarrow> mem s2 x = mem s1 x"
    unfolding extends_def by blast
  have "trace s2 = trace s @ (es @ fs)" using 1(1) 2(1) by simp
  moreover have "\<forall>x. \<not> touched (es @ fs) x \<longrightarrow> mem s2 x = mem s x"
    using 1(2) 2(2) by simp
  ultimately show ?thesis unfolding extends_def by blast
qed

lemma extends_loads: "extends s (s\<lparr>trace := trace s @ es\<rparr>)"
  unfolding extends_def by (intro exI[of _ es]) simp

lemma extends_store: "extends s (store_bytes a bs s)"
  unfolding extends_def
proof (intro exI[of _ "[Store a (length bs)]"] conjI allI impI)
  show "trace (store_bytes a bs s) = trace s @ [Store a (length bs)]" by simp
next
  fix x assume "\<not> touched [Store a (length bs)] x"
  then have "\<forall>j<length bs. x \<noteq> a + of_nat j" by (simp add: touched_def)
  then show "mem (store_bytes a bs s) x = mem s x" by (rule mem_store_bytes_other)
qed

lemma extends_frame:
  assumes "extends s s'" "trace s' = trace s @ es" "\<not> touched es x"
  shows "mem s' x = mem s x"
  using assms unfolding extends_def by auto

lemma extends_full_tile:
  assumes "length ptrs = 9"
  shows "extends s (snd (snd (snd (full_tile p (w, ptrs, out, s)))))"
  unfolding full_tile_eq[OF assms] mm_storel_epi64_def
  by (simp add: extends_trans[OF extends_loads extends_store])

lemma extends_tiles:
  assumes "length ptrs = 9"
  shows "extends s (snd (snd (snd (snd (tiles p c (w, ptrs, out, s))))))"
  using assms
proof (induction p c "(w, ptrs, out, s)" arbitrary: w ptrs out s rule: tiles.induct)
  case (1 p c)
  show ?case
  proof (cases "8 \<le> c")
    case True
    have ft: "full_tile p (w, ptrs, out, s) =
        (w + 104, map (\<lambda>a. a + 8) ptrs, out + 8, snd (snd (snd (full_tile p (w, ptrs, out, s)))))"
      by (simp add: full_tile_eq[OF "1.prems"])
    have "extends (snd (snd (snd (full_tile p (w, ptrs, out, s)))))
            (snd (snd (snd (snd (tiles p (c - 8) (full_tile p (w, ptrs, out, s)))))))"
      by (subst (2) ft, rule "1.hyps"[OF True ft]) (simp add: "1.prems")
    then show ?thesis
      using True extends_full_tile[OF "1.prems", of s p w out]
      by (subst tiles.simps) (auto intro: extends_trans)
  next
    case False
    then show ?thesis by (subst tiles.simps) simp
  qed
qed

lemma extends_tail_tile:
  assumes "length ptrs = 9"
  shows "extends s (snd (tail_tile p c (w, ptrs, out, s)))"
proof -
  obtain vacc where a: "accumulate w ptrs s =
      (vacc, map (\<lambda>a. a + 8) ptrs, s\<lparr>trace := trace s @ tile_loads w ptrs\<rparr>)"
    using accumulate_eq[OF assms] by blast
  show ?thesis
    by (auto simp add: tail_tile_def a Let_def store_u32_def store_u16_def store_i8_def
          intro!: extends_loads extends_trans[OF _ extends_store])
qed

lemma load_taps_total:
  assumes "\<forall>k\<in>set ks. indirection_entry s input k \<noteq> 0"
  shows "\<exists>ptrs s1. load_taps input input_offset zero ks s = Inr (ptrs, s1)"
  using assms
proof (induction ks arbitrary: s)
  case Nil
  then show ?case by simp
next
  case (Cons k ks)
  define s0 where "s0 = s\<lparr>trace := trace s @ [Load (IndirectionEntry k) (input + 8 * of_nat k) 8]\<rparr>"
  have "\<forall>k\<in>set ks. indirection_entry s0 input k \<noteq> 0"
    using Cons.prems by (simp add: s0_def)
  from Cons.IH[OF this] obtain ptrs s1 where
    "load_taps input input_offset zero ks s0 = Inr (ptrs, s1)" by blast
  moreover have "indirection_entry s input k \<noteq> 0" using Cons.prems by simp
  ultimately show ?case
    by (simp add: load_ptr_def logged_def indirection_entry_def s0_def)
qed

lemma column_total:
  assumes "\<forall>k<9. indirection_entry s input k \<noteq> 0"
  shows "\<exists>out' s'. column p channels weights output_increment input_offset zero input output s = Inr (out', s')"
proof -
  from load_taps_total[of "[0..<9]" s input input_offset zero] assms obtain ptrs s1 where
    "load_taps input input_offset zero [0..<9] s = Inr (ptrs, s1)" by auto
  then show ?thesis
    by (simp add: column_def split: prod.splits)
qed

lemma extends_column:
  assumes "column p channels weights output_increment input_offset zero input output s = Inr (out', s')"
  shows "extends s s'"
proof -
  from assms obtain ptrs s1 where
    lt: "load_taps input input_offset zero [0..<9] s = Inr (ptrs, s1)"
    by (auto simp add: column_def split: sum.splits)
  from load_taps_Inr[OF lt] have len: "length ptrs = 9" and e1: "extends s s1"
    by (simp_all add: extends_loads)
  obtain c w ptrs' out2 s2 where t: "tiles p channels (weights, ptrs, output, s1) = (c, w, ptrs', out2, s2)"
    by (metis prod_cases5)
  have e2: "extends s1 s2" using extends_tiles[OF len, of s1 p channels weights "output"] t by simp
  have len': "length ptrs' = 9"
    using tiles_trace[OF len, of p channels weights "output" s1] t len by auto
  have "s' = (if c \<noteq> 0 then snd (tail_tile p c (w, ptrs', out2, s2)) else s2)"
    using assms unfolding column_def lt by (auto simp add: t split: prod.splits if_splits)
  then have "extends s2 s'" using extends_tail_tile[OF len'] by simp
  then show ?thesis using e1 e2 by (blast intro: extends_trans)
qed

lemma columns_Inr:
  assumes "columns p channels weights input_stride output_increment input_offset zero n input output s =
             Inr (out', s')"
  shows "out' = output + of_nat n * (of_nat channels + output_increment) \<and>
         stores (trace s') = stores (trace s) @
           concat (map (\<lambda>j. column_stores channels (output + of_nat j * (of_nat channels + output_increment)))
                     [0..<n]) \<and>
         extends s s'"
  using assms
proof (induction n arbitrary: input "output" s)
  case 0
  then show ?case by simp
next
  case (Suc n)
  from Suc.prems obtain out1 s1 where
    c: "column p channels weights output_increment input_offset zero input output s = Inr (out1, s1)"
    and r: "columns p channels weights input_stride output_increment input_offset zero n
              (input + input_stride) out1 s1 = Inr (out', s')"
    by (auto split: sum.splits)
  note c1 = column_Inr(1,2)[OF c] and e1 = extends_column[OF c]
  note ih = Suc.IH[OF r]
  have shift: "out1 + of_nat j * (of_nat channels + output_increment) =
        output + of_nat (Suc j) * (of_nat channels + output_increment)" for j
    unfolding c1(1) by (simp add: algebra_simps)
  have "[0..<Suc n] = 0 # map Suc [0..<n]"
    by (simp add: upt_conv_Cons map_Suc_upt del: upt_Suc)
  then have "concat (map (\<lambda>j. column_stores channels (output + of_nat j * (of_nat channels + output_increment)))
                     [0..<Suc n]) =
        column_stores channels output @
        concat (map (\<lambda>j. column_stores channels (out1 + of_nat j * (of_nat channels + output_increment)))
                     [0..<n])"
    unfolding shift by (simp add: comp_def del: upt_Suc)
  then show ?case
    using ih c1(2) e1 unfolding shift[of n, symmetric]
    by (auto simp del: upt_Suc intro: extends_trans)
qed

lemma far_apart:
  assumes "unat (x :: addr) < unat out" "unat out + n \<le> 2 ^ 64"
  shows "\<forall>j<n. x \<noteq> out + of_nat j"
proof (intro allI impI notI)
  fix j assume j: "j < n" and x: "x = out + of_nat j"
  have 1: "unat (of_nat j :: addr) = j"
    using assms(2) j by (simp add: unat_of_nat)
  have "unat out + unat (of_nat j :: addr) < 2 ^ LENGTH(64)"
    unfolding 1 using assms(2) j by simp
  then have "unat (out + of_nat j) = unat out + unat (of_nat j :: addr)"
    by (simp only: unat_add_lem)
  then show False using assms(1) x 1 by simp
qed

lemma tail_stores_cases:
  "tail_stores 1 out = [(out, 1)]"
  "tail_stores (Suc 0) out = [(out, 1)]"
  "tail_stores 2 out = [(out, 2)]"
  "tail_stores 3 out = [(out, 2), (out + 2, 1)]"
  "tail_stores 4 out = [(out, 4)]"
  "tail_stores 5 out = [(out, 4), (out + 4, 1)]"
  "tail_stores 6 out = [(out, 4), (out + 4, 2)]"
  "tail_stores 7 out = [(out, 4), (out + 4, 2), (out + 6, 1)]"
  by (simp_all add: tail_stores_def)

lemma tail_stores_frame:
  assumes "c < 8" "\<forall>i<c. x \<noteq> out + of_nat i"
  shows "\<not> (\<exists>(a, n) \<in> set (tail_stores c out). \<exists>j<n. x = a + of_nat j)"
proof -
  have "c = 0 \<or> c = 1 \<or> c = 2 \<or> c = 3 \<or> c = 4 \<or> c = 5 \<or> c = 6 \<or> c = 7"
    using assms(1) by linarith
  then show ?thesis
  proof (elim disjE)
    assume "c = 0" then show ?thesis by simp
  next
    assume "c = 1" then show ?thesis using assms(2)
      by (simp add: tail_stores_cases) ((simp add: All_less_Suc Ex_less_Suc eval_nat_numeral add.commute)?)
  next
    assume "c = 2" then show ?thesis using assms(2)
      by (simp add: tail_stores_cases) ((simp add: All_less_Suc Ex_less_Suc eval_nat_numeral add.commute)?)
  next
    assume "c = 3" then show ?thesis using assms(2)
      by (simp add: tail_stores_cases) ((simp add: All_less_Suc Ex_less_Suc eval_nat_numeral add.commute)?)
  next
    assume "c = 4" then show ?thesis using assms(2)
      by (simp add: tail_stores_cases) ((simp add: All_less_Suc Ex_less_Suc eval_nat_numeral add.commute)?)
  next
    assume "c = 5" then show ?thesis using assms(2)
      by (simp add: tail_stores_cases) ((simp add: All_less_Suc Ex_less_Suc eval_nat_numeral add.commute)?)
  next
    assume "c = 6" then show ?thesis using assms(2)
      by (simp add: tail_stores_cases) ((simp add: All_less_Suc Ex_less_Suc eval_nat_numeral add.commute)?)
  next
    assume "c = 7" then show ?thesis using assms(2)
      by (simp add: tail_stores_cases) ((simp add: All_less_Suc Ex_less_Suc eval_nat_numeral add.commute)?)
  qed
qed

lemma tile_stores_frame:
  assumes "\<forall>i<8 * n. (x :: addr) \<noteq> out + of_nat i"
  shows "\<not> (\<exists>(a, m) \<in> set (map (\<lambda>t. (out + 8 * of_nat t, 8)) [0..<n]). \<exists>j<m. x = a + of_nat j)"
proof
  assume "\<exists>(a, m) \<in> set (map (\<lambda>t. (out + 8 * of_nat t, 8)) [0..<n]). \<exists>j<m. x = a + of_nat j"
  then obtain t j where t: "t < n" and j: "j < (8::nat)" and x: "x = out + 8 * of_nat t + of_nat j"
    by auto
  have "8 * t + j < 8 * n" using t j by simp
  moreover have "x = out + of_nat (8 * t + j)" using x by simp
  ultimately show False using assms by blast
qed

lemma column_stores_frame:
  assumes "\<forall>i<channels. (x :: addr) \<noteq> out + of_nat i"
  shows "\<not> (\<exists>(a, n) \<in> set (column_stores channels out). \<exists>j<n. x = a + of_nat j)"
proof -
  define n where "n = channels div 8"
  define r where "r = channels mod 8"
  have ch: "channels = 8 * n + r" and r: "r < 8" by (simp_all add: n_def r_def)
  have "\<forall>i<8 * n. x \<noteq> out + of_nat i" using assms ch by simp
  then have 1: "\<not> (\<exists>(a, m) \<in> set (map (\<lambda>t. (out + 8 * of_nat t, 8)) [0..<n]). \<exists>j<m. x = a + of_nat j)"
    by (rule tile_stores_frame)
  have "\<forall>i<r. x \<noteq> out + 8 * of_nat n + of_nat i"
  proof (intro allI impI)
    fix i assume "i < r"
    then have "8 * n + i < channels" using ch by simp
    then have "x \<noteq> out + of_nat (8 * n + i)" using assms by blast
    then show "x \<noteq> out + 8 * of_nat n + of_nat i" by (simp add: add.assoc)
  qed
  then have 2: "\<not> (\<exists>(a, m) \<in> set (tail_stores r (out + 8 * of_nat n)). \<exists>j<m. x = a + of_nat j)"
    by (rule tail_stores_frame[OF r])
  show ?thesis
    unfolding column_stores_def n_def[symmetric] r_def[symmetric] using 1 2 by auto
qed

lemma column_frame:
  assumes "column p channels weights output_increment input_offset zero input output s = Inr (out', s')"
    and "\<forall>i<channels. x \<noteq> output + of_nat i"
  shows "mem s' x = mem s x"
proof -
  from extends_column[OF assms(1)] obtain es where
    es: "trace s' = trace s @ es" "\<forall>x. \<not> touched es x \<longrightarrow> mem s' x = mem s x"
    unfolding extends_def by blast
  have "stores es = column_stores channels output"
    using column_Inr(2)[OF assms(1)] es(1) by simp
  then have "\<not> touched es x"
    unfolding touched_def using column_stores_frame[OF assms(2)] by simp
  then show ?thesis using es(2) by blast
qed

lemma column_stores_8 [simp]: "column_stores 8 out = [(out, 8)]"
  by (simp add: column_stores_def)

lemma lt9_cases:
  "k < 9 \<Longrightarrow> k = 0 \<or> k = 1 \<or> k = 2 \<or> k = 3 \<or> k = 4 \<or> k = 5 \<or> k = 6 \<or> k = 7 \<or> k = (8::nat)"
  by linarith

lemma unlanes_bytes_eval:
  "(unlanes [b0, b1, b2, b3, b4, b5, b6, b7 :: byte] :: addr) =
     push_bit 56 (ucast b7) OR push_bit 48 (ucast b6) OR push_bit 40 (ucast b5) OR
     push_bit 32 (ucast b4) OR push_bit 24 (ucast b3) OR push_bit 16 (ucast b2) OR
     push_bit 8 (ucast b1) OR ucast b0"
  by (simp add: unlanes_def push_bit_or or.assoc)

lemma upt_8: "[0..<8] = [0, 1, 2, 3, 4, 5, 6, 7]"
  by (simp add: eval_nat_numeral)

lemma load_bytes_8:
  "load_bytes s a 8 = [mem s a, mem s (a + 1), mem s (a + 2), mem s (a + 3),
                       mem s (a + 4), mem s (a + 5), mem s (a + 6), mem s (a + 7)]"
  by (simp add: load_bytes_def upt_8)

lemma example_entries0:
  assumes "k < 9"
  shows "indirection_entry example_machine 100 k = (if k = 0 then 0x0303030303030303 else 0x0101010101010101)"
  using lt9_cases[OF assms]
  by (elim disjE) (simp_all add: indirection_entry_def load_bytes_8 example_machine_def unlanes_bytes_eval)

lemma example_run_Inr:
  "\<exists>s'. example_run = Inr (1022, s') \<and> stores (trace s') = [(1000, 8), (1011, 8)]"
proof -
  let ?col = "column example_params 8 2000 3 16 0x0303030303030303"
  have e0: "\<forall>k<9. indirection_entry example_machine 100 k \<noteq> 0"
    by (simp add: example_entries0)
  from column_total[OF e0] obtain out1 s1 where
    c0: "?col 100 1000 example_machine = Inr (out1, s1)" by blast
  have out1: "out1 = 1011" using column_Inr(1)[OF c0] by simp
  have frame: "mem s1 x = mem example_machine x" if "unat x < 1000" for x
  proof (rule column_frame[OF c0])
    show "\<forall>i<8. x \<noteq> 1000 + of_nat i"
      using that by (intro far_apart) simp_all
  qed
  have e1: "\<forall>k<9. indirection_entry s1 172 k \<noteq> 0"
  proof (intro allI impI)
    fix k :: nat assume "k < 9"
    from lt9_cases[OF this] show "indirection_entry s1 172 k \<noteq> 0"
      by (elim disjE)
        (simp_all add: indirection_entry_def load_bytes_8 frame example_machine_def unlanes_bytes_eval)
  qed
  from column_total[OF e1] obtain out2 s2 where
    c1: "?col 172 1011 s1 = Inr (out2, s2)" by blast
  have run: "example_run = Inr (out2, s2)"
    unfolding example_run_def xnn_qs8_dwconv_minmax_ukernel_up8x9__avx2_mul32_def
    by (simp add: numeral_2_eq_2 c0 out1 c1)
  then have cols: "columns example_params 8 2000 72 3 16 0x0303030303030303 (Suc (Suc 0)) 100 1000 example_machine
      = Inr (out2, s2)"
    unfolding example_run_def xnn_qs8_dwconv_minmax_ukernel_up8x9__avx2_mul32_def
    by (simp add: numeral_2_eq_2)
  from columns_Inr[OF cols] have "out2 = 1022" "stores (trace s2) = [(1000, 8), (1011, 8)]"
    by (simp_all add: example_machine_def)
  then show ?thesis using run by blast
qed

lemma trace_example_machine: "trace example_machine = []"
  by (simp add: example_machine_def)


lemma lane32_cvtepi8:
  assumes "i < 8"
  shows "(lane i (mm256_cvtepi8_epi32 a) :: 32 word) = scast (lane i a :: 8 word)"
  unfolding mm256_cvtepi8_epi32_def using assms by (subst lane_unlanes) simp_all

lemma lane8_loaded:
  assumes "i < 8"
  shows "(lane i (unlanes (load_bytes s a 8) :: m128i) :: 8 word) = mem s (a + of_nat i)"
  using assms by (subst lane_unlanes) (simp_all add: load_bytes_def)

lemma accumulate_tap_lane:
  assumes "i < 8"
  shows "(lane i (fst (accumulate_tap w k (vacc, ptrs, s))) :: 32 word) =
         lane i vacc + scast (mem s (ptrs ! k + of_nat i)) * scast (mem s (w + 32 + 8 * of_nat k + of_nat i))"
  using assms
  by (simp add: accumulate_tap_eq lane32_add lane32_mullo lane32_cvtepi8 lane8_loaded)

lemma extent_append: "extent P b (es @ fs) = max (extent P b es) (extent P b fs)"
  by (induction P b es rule: extent.induct) (simp_all add: max.assoc)

lemma extent_map_Store [simp]: "extent P b (map (\<lambda>(a, n). Store a n) xs) = 0"
  by (induction xs) auto

lemma upt_9: "[0..<9] = [0, 1, 2, 3, 4, 5, 6, 7, 8]"
  by (simp add: eval_nat_numeral)

lemma extent_packed_tile_loads: "extent packed w (tile_loads w ptrs) = 104"
  by (simp add: tile_loads_def upt_9)

lemma extent_row_tile_loads:
  "map (\<lambda>k. extent (\<lambda>r. r = InputRow k) (ptrs ! k) (tile_loads w ptrs)) [0..<9] = replicate 9 8"
  by (simp add: tile_loads_def upt_9 eval_nat_numeral)

lemma tail_tile_extent:
  assumes "length ptrs = 9"
  shows "extent packed w (drop (length (trace s)) (trace (snd (tail_tile p c (w, ptrs, out, s))))) = 104"
    and "map (\<lambda>k. extent (\<lambda>r. r = InputRow k) (ptrs ! k)
                (drop (length (trace s)) (trace (snd (tail_tile p c (w, ptrs, out, s)))))) [0..<9] =
         replicate 9 8"
  by (simp_all add: tail_tile_trace(1)[OF assms] extent_append extent_packed_tile_loads
        extent_row_tile_loads)

lemma mem_store_i8: "mem (store_i8 a x s) b = (if b = a then x else mem s b)"
  by (simp add: store_i8_def store_bytes_def)

lemma mem_store_u16:
  "mem (store_u16 a x s) b = (if b = a + 1 then lane 1 x else if b = a then lane 0 x else mem s b)"
  by (simp add: store_u16_def store_bytes_def eval_nat_numeral)

lemma mem_store_u32:
  "mem (store_u32 a x s) b =
     (if b = a + 3 then lane 3 x else if b = a + 2 then lane 2 x
      else if b = a + 1 then lane 1 x else if b = a then lane 0 x else mem s b)"
  by (simp add: store_u32_def store_bytes_def eval_nat_numeral)

lemma lane8_of_32:
  assumes "i < 4"
  shows "(lane i (lane 0 (v :: 'a::len word) :: 32 word) :: 8 word) = lane i v"
  using lane_lane[where 'b=32 and 'c=8 and r=4 and i=i and j=0 and v=v] assms by simp

lemma lane8_of_16:
  assumes "i < 2"
  shows "(lane i (lane 0 (v :: 'a::len word) :: 16 word) :: 8 word) = lane i v"
  using lane_lane[where 'b=16 and 'c=8 and r=2 and i=i and j=0 and v=v] assms by simp

lemma lane8_of_64:
  assumes "i < 8"
  shows "(lane i (lane 0 (v :: 'a::len word) :: 64 word) :: 8 word) = lane i v"
  using lane_lane[where 'b=64 and 'c=8 and r=8 and i=i and j=0 and v=v] assms by simp

lemma lane8_drop_bit:
  "(lane i (drop_bit (8 * m) (y :: 'a::len word)) :: 8 word) = lane (i + m) y"
proof -
  have e: "i * 8 + 8 * m = (i + m) * 8" by (simp add: algebra_simps)
  have l: "LENGTH(8) = 8" by simp
  show ?thesis
    unfolding lane_def l drop_bit_drop_bit e ..
qed

lemma lane8_srli64:
  assumes "i < 4"
  shows "(lane i (mm_srli_epi64 v 32) :: 8 word) = lane (i + 4) v"
proof -
  have "(lane i (mm_srli_epi64 v 32) :: 8 word) = lane i (lane 0 (mm_srli_epi64 v 32) :: 64 word)"
    using assms by (simp add: lane8_of_64)
  also have "(lane 0 (mm_srli_epi64 v 32) :: 64 word) = drop_bit (8 * 4) (lane 0 v)"
    unfolding mm_srli_epi64_def by (subst lane_lanewise) simp_all
  also have "(lane i (drop_bit (8 * 4) (lane 0 v :: 64 word)) :: 8 word) = lane (i + 4) (lane 0 v :: 64 word)"
    by (rule lane8_drop_bit)
  also have "\<dots> = lane (i + 4) v"
    using assms by (simp add: lane8_of_64)
  finally show ?thesis .
qed

lemma lane8_srli32:
  assumes "i < 2"
  shows "(lane i (mm_srli_epi32 v 16) :: 8 word) = lane (i + 2) v"
proof -
  have "(lane i (mm_srli_epi32 v 16) :: 8 word) = lane i (lane 0 (mm_srli_epi32 v 16) :: 32 word)"
    using assms by (simp add: lane8_of_32)
  also have "(lane 0 (mm_srli_epi32 v 16) :: 32 word) = drop_bit (8 * 2) (lane 0 v)"
    unfolding mm_srli_epi32_def by (subst lane_lanewise) simp_all
  also have "(lane i (drop_bit (8 * 2) (lane 0 v :: 32 word)) :: 8 word) = lane (i + 2) (lane 0 v :: 32 word)"
    by (rule lane8_drop_bit)
  also have "\<dots> = lane (i + 2) v"
    using assms by (simp add: lane8_of_32)
  finally show ?thesis .
qed

lemma tail_tile_mem:
  assumes "length ptrs = 9" "c < 8" "j < c"
  shows "mem (snd (tail_tile p c (w, ptrs, out, s))) (out + of_nat j) =
         lane j (requantize p (fst (accumulate w ptrs s)))"
proof -
  obtain vacc where a: "accumulate w ptrs s =
      (vacc, map (\<lambda>a. a + 8) ptrs, s\<lparr>trace := trace s @ tile_loads w ptrs\<rparr>)"
    using accumulate_eq[OF assms(1)] by blast
  note defs = tail_tile_def Let_def a mem_store_u32 mem_store_u16 mem_store_i8
    mm_cvtsi128_si32_def mm_extract_epi16_def mm_extract_epi8_def
    lane8_of_32 lane8_of_16 lane8_srli64 lane8_srli32
  have "c = 0 \<or> c = 1 \<or> c = 2 \<or> c = 3 \<or> c = 4 \<or> c = 5 \<or> c = 6 \<or> c = 7"
    using assms(2) by linarith
  then show ?thesis
  proof (elim disjE)
    assume "c = 0" then show ?thesis using assms(3) by simp
  next
    assume c: "c = 1"
    then have "j = 0" using assms(3) by simp
    then show ?thesis unfolding c by (simp add: defs)
  next
    assume c: "c = 2"
    then have "j = 0 \<or> j = 1" using assms(3) by linarith
    then show ?thesis unfolding c by (elim disjE) (simp_all add: defs, (simp_all add: eval_nat_numeral)?)
  next
    assume c: "c = 3"
    then have "j = 0 \<or> j = 1 \<or> j = 2" using assms(3) by linarith
    then show ?thesis unfolding c by (elim disjE) (simp_all add: defs, (simp_all add: eval_nat_numeral)?)
  next
    assume c: "c = 4"
    then have "j = 0 \<or> j = 1 \<or> j = 2 \<or> j = 3" using assms(3) by linarith
    then show ?thesis unfolding c by (elim disjE) (simp_all add: defs, (simp_all add: eval_nat_numeral)?)
  next
    assume c: "c = 5"
    then have "j = 0 \<or> j = 1 \<or> j = 2 \<or> j = 3 \<or> j = 4" using assms(3) by linarith
    then show ?thesis unfolding c by (elim disjE) (simp_all add: defs, (simp_all add: eval_nat_numeral)?)
  next
    assume c: "c = 6"
    then have "j = 0 \<or> j = 1 \<or> j = 2 \<or> j = 3 \<or> j = 4 \<or> j = 5" using assms(3) by linarith
    then show ?thesis unfolding c by (elim disjE) (simp_all add: defs, (simp_all add: eval_nat_numeral)?)
  next
    assume c: "c = 7"
    then have "j = 0 \<or> j = 1 \<or> j = 2 \<or> j = 3 \<or> j = 4 \<or> j = 5 \<or> j = 6" using assms(3) by linarith
    then show ?thesis unfolding c by (elim disjE) (simp_all add: defs, (simp_all add: eval_nat_numeral)?)
  qed
qed

lemma full_tile_mem:
  assumes "length ptrs = 9" "j < 8"
  shows "mem (snd (snd (snd (full_tile p (w, ptrs, out, s))))) (out + of_nat j) =
         lane j (requantize p (fst (accumulate w ptrs s)))"
  unfolding full_tile_eq[OF assms(1)] mm_storel_epi64_def using assms(2)
  by (simp add: mem_store_bytes_at)
lemma tiles_funpow:
  assumes "r < 8"
  shows "tiles p (8 * n + r) st = (r, (full_tile p ^^ n) st)"
proof (induction n arbitrary: st)
  case 0
  show ?case using assms by (subst tiles.simps) simp
next
  case (Suc n)
  have "tiles p (8 * Suc n + r) st = tiles p (8 * n + r) (full_tile p st)"
    by (subst tiles.simps) simp
  then show ?case by (simp add: Suc.IH funpow_swap1)
qed

lemma funpow_full_tile:
  assumes "length ptrs = 9"
  shows "\<exists>w' ptrs' s'. (full_tile p ^^ n) (w, ptrs, out, s) = (w', ptrs', out + 8 * of_nat n, s') \<and>
           length ptrs' = 9"
proof (induction n)
  case 0
  show ?case using assms by simp
next
  case (Suc n)
  then obtain w' ptrs' s' where
    f: "(full_tile p ^^ n) (w, ptrs, out, s) = (w', ptrs', out + 8 * of_nat n, s')" and l: "length ptrs' = 9"
    by blast
  show ?case by (simp add: f full_tile_eq[OF l] l algebra_simps)
qed

lemma tail_store_sizes:
  assumes "r < 8"
  shows "map snd (tail_stores r out) = filter (\<lambda>m. r AND m \<noteq> 0) [4, 2, 1]"
proof -
  have "r = 0 \<or> r = 1 \<or> r = 2 \<or> r = 3 \<or> r = 4 \<or> r = 5 \<or> r = 6 \<or> r = 7"
    using assms by linarith
  then show ?thesis
    by (elim disjE) (simp_all add: tail_stores_def)
qed

lemma column_tail_full:
  assumes "0 < r" "r < 8"
    and "column p (8 * n + r) weights output_increment input_offset zero input output s = Inr (out1, s1)"
    and "column p (8 * n + 8) weights output_increment input_offset zero input output s = Inr (out2, s2)"
    and "j < r"
  shows "mem s1 (output + 8 * of_nat n + of_nat j) = mem s2 (output + 8 * of_nat n + of_nat j)"
proof -
  from assms(3) obtain ptrs s0 where
    lt: "load_taps input input_offset zero [0..<9] s = Inr (ptrs, s0)"
    by (auto simp add: column_def split: sum.splits)
  have l: "length ptrs = 9" using load_taps_Inr[OF lt] by simp
  from funpow_full_tile[OF l] obtain w' ptrs' s' where
    f: "(full_tile p ^^ n) (weights, ptrs, output, s0) = (w', ptrs', output + 8 * of_nat n, s')"
    and l': "length ptrs' = 9" by blast
  have t1: "tiles p (8 * n + r) (weights, ptrs, output, s0) = (r, w', ptrs', output + 8 * of_nat n, s')"
    by (simp add: tiles_funpow[OF assms(2)] f)
  have "tiles p (8 * Suc n + 0) (weights, ptrs, output, s0) =
          (0, (full_tile p ^^ Suc n) (weights, ptrs, output, s0))"
    by (rule tiles_funpow) simp
  then have t2: "tiles p (8 * n + 8) (weights, ptrs, output, s0) =
          (0, full_tile p (w', ptrs', output + 8 * of_nat n, s'))"
    by (simp add: f add.commute)
  have s1: "s1 = snd (tail_tile p r (w', ptrs', output + 8 * of_nat n, s'))"
    using assms(1,3) by (simp add: column_def lt t1 split: prod.splits)
  have s2: "s2 = snd (snd (snd (full_tile p (w', ptrs', output + 8 * of_nat n, s'))))"
    using assms(4) by (simp add: column_def lt t2 full_tile_eq[OF l'])
  have "j < 8" using assms(2,5) by simp
  then show ?thesis
    unfolding s1 s2 by (simp add: tail_tile_mem[OF l' assms(2,5)] full_tile_mem[OF l'])
qed

lemma tail_tile_frame:
  assumes "length ptrs = 9" "c < 8" "\<forall>i<c. x \<noteq> out + of_nat i"
  shows "mem (snd (tail_tile p c (w, ptrs, out, s))) x = mem s x"
proof -
  from extends_tail_tile[OF assms(1)] obtain es where
    es: "trace (snd (tail_tile p c (w, ptrs, out, s))) = trace s @ es"
        "\<forall>x. \<not> touched es x \<longrightarrow> mem (snd (tail_tile p c (w, ptrs, out, s))) x = mem s x"
    unfolding extends_def by blast
  have "es = tile_loads w ptrs @ map (\<lambda>(a, n). Store a n) (tail_stores c out)"
    using es(1) tail_tile_trace(1)[OF assms(1)] by simp
  then have "stores es = tail_stores c out"
    by (simp add: stores_append stores_tile_loads)
  then have "\<not> touched es x"
    unfolding touched_def using tail_stores_frame[OF assms(2,3)] by simp
  then show ?thesis using es(2) by blast
qed

lemma tail_tile_stores:
  assumes "length ptrs = 9"
  shows "stores (trace (snd (tail_tile p c (w, ptrs, out, s)))) = stores (trace s) @ tail_stores c out"
  by (simp add: tail_tile_trace(1)[OF assms] stores_append stores_tile_loads)

lemma fold_taps_lane:
  assumes "i < 8" "distinct ks"
  shows "(lane i (fst (fold (accumulate_tap w) ks (vacc, ptrs, s))) :: 32 word) =
         lane i vacc +
         sum_list (map (\<lambda>k. scast (mem s (ptrs ! k + of_nat i)) *
                              scast (mem s (w + 32 + 8 * of_nat k + of_nat i))) ks)"
  using assms(2)
proof (induction ks arbitrary: vacc ptrs s)
  case Nil
  show ?case by simp
next
  case (Cons k ks)
  obtain vacc' where a: "accumulate_tap w k (vacc, ptrs, s) =
      (vacc', ptrs[k := ptrs ! k + 8],
       s\<lparr>trace := trace s @ [Load (InputRow k) (ptrs ! k) 8,
                              Load (PackedWeights k) (w + 32 + 8 * of_nat k) 8]\<rparr>)"
    by (simp add: accumulate_tap_eq)
  have v: "(lane i vacc' :: 32 word) =
      lane i vacc + scast (mem s (ptrs ! k + of_nat i)) * scast (mem s (w + 32 + 8 * of_nat k + of_nat i))"
    using accumulate_tap_lane[OF assms(1), of w k vacc ptrs s] by (simp add: a)
  have d: "distinct ks" and n: "k \<notin> set ks" using Cons.prems by simp_all
  have m: "map (\<lambda>k'. (scast (mem s (ptrs[k := ptrs ! k + 8] ! k' + of_nat i)) :: 32 word) *
                      scast (mem s (w + 32 + 8 * of_nat k' + of_nat i))) ks =
           map (\<lambda>k'. scast (mem s (ptrs ! k' + of_nat i)) *
                      scast (mem s (w + 32 + 8 * of_nat k' + of_nat i))) ks"
  proof (rule map_cong[OF refl])
    fix k' assume "k' \<in> set ks"
    then have "k \<noteq> k'" using n by blast
    then show "(scast (mem s (ptrs[k := ptrs ! k + 8] ! k' + of_nat i)) :: 32 word) *
                 scast (mem s (w + 32 + 8 * of_nat k' + of_nat i)) =
               scast (mem s (ptrs ! k' + of_nat i)) * scast (mem s (w + 32 + 8 * of_nat k' + of_nat i))"
      by simp
  qed
  note m' = arg_cong[OF m, of sum_list]
  show ?case
    using m' by (simp add: a Cons.IH[OF d] v add.assoc)
qed

lemma accumulate_lane:
  assumes "i < 8"
  shows "(lane i (fst (accumulate w ptrs s)) :: 32 word) =
         lane i (unlanes (load_bytes s w 32) :: m256i) +
         sum_list (map (\<lambda>k. scast (mem s (ptrs ! k + of_nat i)) *
                              scast (mem s (w + 32 + 8 * of_nat k + of_nat i))) [0..<9])"
proof -
  have "(lane i (fst (fold (accumulate_tap w) [0..<9]
            (unlanes (load_bytes s w 32), ptrs, logged (Load PackedBias w 32) s))) :: 32 word) =
         lane i (unlanes (load_bytes s w 32) :: m256i) +
         sum_list (map (\<lambda>k. scast (mem (logged (Load PackedBias w 32) s) (ptrs ! k + of_nat i)) *
                scast (mem (logged (Load PackedBias w 32) s) (w + 32 + 8 * of_nat k + of_nat i))) [0..<9])"
    by (rule fold_taps_lane[OF assms]) simp
  then show ?thesis
    by (simp add: accumulate_def mm256_loadu_si256_def logged_def)
qed

lemma word32_eq_bytesI:
  assumes "\<forall>j<4. (lane j (x :: 32 word) :: 8 word) = lane j (y :: 32 word)"
  shows "x = y"
proof (rule bit_word_eqI)
  fix n assume n: "n < LENGTH(32)"
  have d: "n div 8 * LENGTH(8) + n mod 8 = n" by simp
  have "bit x n = bit (lane (n div 8) x :: 8 word) (n mod 8)"
    unfolding bit_lane d by simp
  also have "(lane (n div 8) x :: 8 word) = lane (n div 8) y"
    using assms n by simp
  also have "bit (lane (n div 8) y :: 8 word) (n mod 8) = bit y n"
    unfolding bit_lane d by simp
  finally show "bit x n = bit y n" .
qed

lemma word32_of_bytes:
  "(x :: 32 word) = unlanes [lane 0 x, lane 1 x, lane 2 x, lane 3 x :: 8 word]"
proof (rule word32_eq_bytesI, intro allI impI)
  fix j :: nat assume "j < 4"
  from lt4_cases[OF this]
  show "(lane j x :: 8 word) = lane j (unlanes [lane 0 x, lane 1 x, lane 2 x, lane 3 x :: 8 word] :: 32 word)"
    by (elim disjE) (simp_all add: lane_unlanes)
qed

lemma bias_lane:
  assumes "i < 8"
  shows "(lane i (unlanes (load_bytes s w 32) :: m256i) :: 32 word) =
         unlanes [mem s (w + of_nat (i * 4)), mem s (w + of_nat (i * 4 + 1)),
                  mem s (w + of_nat (i * 4 + 2)), mem s (w + of_nat (i * 4 + 3))]"
proof -
  define v where "v = (unlanes (load_bytes s w 32) :: m256i)"
  have b: "(lane j (lane i v :: 32 word) :: 8 word) = mem s (w + of_nat (i * 4 + j))" if "j < 4" for j
  proof -
    have "(lane j (lane i v :: 32 word) :: 8 word) = lane (i * 4 + j) v"
      by (rule lane_lane) (simp_all add: that)
    also have "\<dots> = load_bytes s w 32 ! (i * 4 + j)"
      unfolding v_def using assms that by (intro lane_unlanes) (simp_all add: load_bytes_def)
    also have "\<dots> = mem s (w + of_nat (i * 4 + j))"
      using assms that by (simp add: load_bytes_def)
    finally show ?thesis .
  qed
  have "(lane i v :: 32 word) =
      unlanes [lane 0 (lane i v :: 32 word), lane 1 (lane i v :: 32 word),
               lane 2 (lane i v :: 32 word), lane 3 (lane i v :: 32 word) :: 8 word]"
    by (rule word32_of_bytes)
  then show ?thesis
    using b[of 0] b[of 1] b[of 2] b[of 3] unfolding v_def by simp
qed

lemma unlanes_bytes32_eval:
  "(unlanes [b0, b1, b2, b3 :: byte] :: 32 word) =
     push_bit 24 (ucast b3) OR push_bit 16 (ucast b2) OR push_bit 8 (ucast b1) OR ucast b0"
  by (simp add: unlanes_def push_bit_or or.assoc)

lemma example_accumulators:
  assumes "i < 8"
  shows "(lane i (fst (accumulate 2000 (replicate 9 0x0303030303030303) example_machine)) :: 32 word) =
         0x01010101"
proof -
  have z: "mem example_machine (0x0303030303030303 + of_nat i) = 0"
    using lt8_cases[OF assms] by (elim disjE) (simp_all add: example_machine_def)
  have b: "(lane i (unlanes (load_bytes example_machine 2000 32) :: m256i) :: 32 word) = 0x01010101"
    unfolding bias_lane[OF assms] using lt8_cases[OF assms]
    by (elim disjE) (simp_all add: example_machine_def unlanes_bytes32_eval)
  show ?thesis
    unfolding accumulate_lane[OF assms] b by (simp add: upt_9 z)
qed

lemma example_scaled:
  assumes "i < 8"
    and "\<forall>j<4. (lane j (multiplier p) :: 32 word) = 0x40000000"
    and "\<forall>k<2. (lane k (rounding p) :: 64 word) = 0x40000000"
    and "\<forall>j<4. (lane j (remainder_mask p) :: 32 word) = 1"
    and "\<forall>j<4. (lane j (remainder_threshold p) :: 32 word) = 0"
    and "(lane 0 (shift p) :: 64 word) = 1"
  shows "(lane i (vscaled p (vq31prod p
            (fst (accumulate 2000 (replicate 9 0x0303030303030303) example_machine)))) :: 32 word) =
         4210753"
proof -
  have m: "i mod 4 < 4" "2 * (i div 2 mod 2) < 4" "i div 2 mod 2 < 2" by simp_all
  show ?thesis
    using assms(2-6) m
    by (simp add: vscaled_lane[OF assms(1)] vrem_lane[OF assms(1)] vq31prod_lane[OF assms(1)]
          example_accumulators[OF assms(1)])
qed

lemma requantize_clamped_lane:
  assumes "l < 8"
    and "sint (lane l (output_min p) :: 16 word) \<le> sint (lane l (output_max p) :: 16 word)"
    and "- 128 \<le> sint (lane l (output_min p) :: 16 word)"
    and "sint (lane l (output_max p) :: 16 word) \<le> 127"
  shows "sint (lane l (requantize p vacc) :: 8 word) =
         min (max (max (- 32768) (min 32767
                     (max (- 32768) (min 32767 (sint (lane l (vscaled p (vq31prod p vacc)) :: 32 word))) +
                      sint (lane l (output_zero_point p) :: 16 word))))
                  (sint (lane l (output_min p) :: 16 word)))
             (sint (lane l (output_max p) :: 16 word))"
proof -
  define q where "q = vscaled p (vq31prod p vacc)"
  define d where "d = sint (lane l (vout_zero_point p q) :: 16 word)"
  define lo where "lo = sint (lane l (output_min p) :: 16 word)"
  define hi where "hi = sint (lane l (output_max p) :: 16 word)"
  have out: "sint (lane l (vout p q) :: 8 word) = max (- 128) (min 127 (min (max d lo) hi))"
    unfolding vout_lane[OF assms(1)] Let_def sint_saturate8 d_def lo_def hi_def
    by (simp add: min_def max_def)
  have d: "d = max (- 32768) (min 32767 (max (- 32768) (min 32767 (sint (lane l q :: 32 word))) +
                     sint (lane l (output_zero_point p) :: 16 word)))"
    unfolding d_def vout_zero_point_lane[OF assms(1)] sint_saturate16 ..
  have h: "lo \<le> hi" "- 128 \<le> lo" "hi \<le> 127"
    using assms(2-4) unfolding lo_def hi_def by simp_all
  have "sint (lane l (vout p q) :: 8 word) = min (max d lo) hi"
    unfolding out using h by (simp add: min_def max_def)
  then show ?thesis
    unfolding requantize_def q_def[symmetric] d lo_def hi_def .
qed

lemma clamp_exact:
  fixes a zp lo hi :: int
  assumes "lo \<le> hi" "- 128 \<le> lo" "hi \<le> 127" "hi - 32767 \<le> zp" "zp \<le> lo + 32768"
  shows "min (max (max (- 32768) (min 32767 (max (- 32768) (min 32767 a) + zp))) lo) hi =
         min (max (a + zp) lo) hi"
  using assms by (simp add: min_def max_def)

lemma lane_extreme_zero_point_params:
  "j < 4 \<Longrightarrow> (lane j (multiplier extreme_zero_point_params) :: 32 word) = 0x40000000"
  "k < 2 \<Longrightarrow> (lane k (rounding extreme_zero_point_params) :: 64 word) = 0x40000000"
  "j < 4 \<Longrightarrow> (lane j (remainder_mask extreme_zero_point_params) :: 32 word) = 1"
  "j < 4 \<Longrightarrow> (lane j (remainder_threshold extreme_zero_point_params) :: 32 word) = 0"
  "k < 2 \<Longrightarrow> (lane k (shift extreme_zero_point_params) :: 64 word) = 1"
  "l < 8 \<Longrightarrow> (lane l (output_zero_point extreme_zero_point_params) :: 16 word) = - 32768"
  "l < 8 \<Longrightarrow> (lane l (output_min extreme_zero_point_params) :: 16 word) = - 128"
  "l < 8 \<Longrightarrow> (lane l (output_max extreme_zero_point_params) :: 16 word) = 127"
  by (simp_all add: extreme_zero_point_params_def lane_uniform_params)

lemma stored_byte:
  assumes "length ptrs = 9" "l < 8"
    and "sint (lane l (output_min p) :: 16 word) \<le> sint (lane l (output_max p) :: 16 word)"
    and "- 128 \<le> sint (lane l (output_min p) :: 16 word)"
    and "sint (lane l (output_max p) :: 16 word) \<le> 127"
  shows "sint (mem (snd (snd (snd (full_tile p (w, ptrs, out, s))))) (out + of_nat l)) =
         min (max (max (- 32768) (min 32767
                     (max (- 32768) (min 32767
                        (sint (lane l (vscaled p (vq31prod p (fst (accumulate w ptrs s)))) :: 32 word))) +
                      sint (lane l (output_zero_point p) :: 16 word))))
                  (sint (lane l (output_min p) :: 16 word)))
             (sint (lane l (output_max p) :: 16 word))"
    and "l < c \<Longrightarrow> c < 8 \<Longrightarrow>
         sint (mem (snd (tail_tile p c (w, ptrs, out, s))) (out + of_nat l)) =
         min (max (max (- 32768) (min 32767
                     (max (- 32768) (min 32767
                        (sint (lane l (vscaled p (vq31prod p (fst (accumulate w ptrs s)))) :: 32 word))) +
                      sint (lane l (output_zero_point p) :: 16 word))))
                  (sint (lane l (output_min p) :: 16 word)))
             (sint (lane l (output_max p) :: 16 word))"
  by (simp_all only: full_tile_mem[OF assms(1,2)] tail_tile_mem[OF assms(1)]
        requantize_clamped_lane[OF assms(2-5)])

lemma example_requantized:
  assumes "i < 8"
  shows "(lane i (requantize example_params
            (fst (accumulate 2000 (replicate 9 0x0303030303030303) example_machine))) :: 8 word) = 127"
proof -
  have a: "(lane i (vscaled example_params (vq31prod example_params
          (fst (accumulate 2000 (replicate 9 0x0303030303030303) example_machine)))) :: 32 word) = 4210753"
    by (rule example_scaled[OF assms]) (simp_all add: lane_example_params)
  have "sint (lane i (requantize example_params
            (fst (accumulate 2000 (replicate 9 0x0303030303030303) example_machine))) :: 8 word) = 127"
    using assms by (subst requantize_clamped_lane) (simp_all add: a lane_example_params)
  then have "sint (lane i (requantize example_params
            (fst (accumulate 2000 (replicate 9 0x0303030303030303) example_machine))) :: 8 word) =
            sint (127 :: 8 word)"
    by simp
  then show ?thesis by (rule signed_word_eqI)
qed

section \<open>The loops of the depth-to-space kernel as lists of copies\<close>

lemma run_copies_Nil [simp]: "run_copies [] s = s"
  by (simp add: run_copies_def)

lemma run_copies_append: "run_copies (es @ fs) s = run_copies fs (run_copies es s)"
  by (simp add: run_copies_def)

lemma run_copies_single: "run_copies [(o_c, i_c)] s = copy_u32 i_c o_c s"
  by (simp add: run_copies_def)

lemma x32_copies_run_copies: "x32_copies (run_copies es s) = x32_copies s @ es"
  by (induction es arbitrary: s) (auto simp add: run_copies_def copy_u32_def)

lemma concat_map_upt_Suc:
  "concat (map G [0..<Suc k]) = G 0 @ concat (map (\<lambda>m. G (Suc m)) [0..<k])"
proof -
  have "[0..<Suc k] = 0 # map Suc [0..<k]"
    by (simp add: upt_conv_Cons map_Suc_upt del: upt_Suc)
  then show ?thesis by (simp add: comp_def del: upt_Suc)
qed

lemma do_while_copies:
  assumes body: "\<And>i_p o_p s. body i_p o_p s = run_copies (F i_p o_p) s"
    and "n \<noteq> 0"
  shows "do_while body a b n i_p o_p s =
         run_copies (concat (map (\<lambda>m. F (i_p + of_nat m * a) (o_p + of_nat m * b)) [0..<unat n])) s"
  using assms(2)
proof (induction "unat n" arbitrary: n i_p o_p s)
  case 0
  then show ?case by (simp add: unat_eq_zero)
next
  case (Suc k)
  have u: "unat n = Suc k" using Suc.hyps(2) by simp
  show ?case
  proof (cases "n - 1 = 0")
    case True
    then have "n = 1" by simp
    then show ?thesis
      by (subst do_while.simps) (simp add: body)
  next
    case False
    have k: "k = unat (n - 1)" using u Suc.prems by (simp add: unat_minus_one)
    have "do_while body a b n i_p o_p s =
          do_while body a b (n - 1) (i_p + a) (o_p + b) (run_copies (F i_p o_p) s)"
      using False by (subst do_while.simps) (simp add: body)
    also have "\<dots> = run_copies (concat (map (\<lambda>m. F (i_p + a + of_nat m * a) (o_p + b + of_nat m * b))
                        [0..<unat (n - 1)])) (run_copies (F i_p o_p) s)"
      by (rule Suc.hyps(1)[OF k False])
    also have "\<dots> = run_copies (concat (map (\<lambda>m. F (i_p + of_nat m * a) (o_p + of_nat m * b))
                        [0..<Suc k])) s"
      unfolding concat_map_upt_Suc run_copies_append k[symmetric]
      by (simp add: algebra_simps)
    finally show ?thesis unfolding u .
  qed
qed

lemma bx_pairs_copies:
  assumes body: "\<And>i_p o_p s. channels i_p o_p s = run_copies (F i_p o_p) s"
  shows "\<exists>q. q \<le> unat bx \<and>
           bx_pairs channels a b bx i_p o_p s =
             (bx - of_nat q, i_p + of_nat q * a, o_p + of_nat q * b,
              run_copies (concat (map (\<lambda>m. F (i_p + of_nat m * a) (o_p + of_nat m * b)) [0..<q])) s)"
proof (induction "unat bx" arbitrary: bx i_p o_p s rule: less_induct)
  case less
  show ?case
  proof (cases "2 \<le> bx")
    case False
    then have "bx_pairs channels a b bx i_p o_p s = (bx, i_p, o_p, s)"
      by (subst bx_pairs.simps) simp
    then show ?thesis by (intro exI[of _ 0]) simp
  next
    case True
    then have u: "unat (bx - 2) = unat bx - 2" and g: "2 \<le> unat bx"
      by (simp_all add: unat_sub word_le_nat_alt)
    then have "unat (bx - 2) < unat bx" by simp
    from less[OF this] obtain q where q: "q \<le> unat (bx - 2)" and
      r: "bx_pairs channels a b (bx - 2) (i_p + 2 * a) (o_p + 2 * b)
            (run_copies (F i_p o_p @ F (i_p + a) (o_p + b)) s) =
          (bx - 2 - of_nat q, i_p + 2 * a + of_nat q * a, o_p + 2 * b + of_nat q * b,
           run_copies (concat (map (\<lambda>m. F (i_p + 2 * a + of_nat m * a) (o_p + 2 * b + of_nat m * b)) [0..<q]))
             (run_copies (F i_p o_p @ F (i_p + a) (o_p + b)) s))"
      by blast
    have e: "bx_pairs channels a b bx i_p o_p s =
          bx_pairs channels a b (bx - 2) (i_p + 2 * a) (o_p + 2 * b)
            (run_copies (F i_p o_p @ F (i_p + a) (o_p + b)) s)"
      using True by (subst bx_pairs.simps) (simp add: body run_copies_append)
    have l: "concat (map (\<lambda>m. F (i_p + of_nat m * a) (o_p + of_nat m * b)) [0..<Suc (Suc q)]) =
          F i_p o_p @ F (i_p + a) (o_p + b) @
          concat (map (\<lambda>m. F (i_p + 2 * a + of_nat m * a) (o_p + 2 * b + of_nat m * b)) [0..<q])"
      unfolding concat_map_upt_Suc by (simp add: algebra_simps)
    show ?thesis
    proof (intro exI[of _ "Suc (Suc q)"] conjI)
      show "Suc (Suc q) \<le> unat bx" using q u g by simp
      show "bx_pairs channels a b bx i_p o_p s =
             (bx - of_nat (Suc (Suc q)), i_p + of_nat (Suc (Suc q)) * a, o_p + of_nat (Suc (Suc q)) * b,
              run_copies (concat (map (\<lambda>m. F (i_p + of_nat m * a) (o_p + of_nat m * b)) [0..<Suc (Suc q)])) s)"
        unfolding e r l by (simp add: run_copies_append algebra_simps)
    qed
  qed
qed

lemma bx_rest_copies:
  assumes body: "\<And>i_p o_p s. channels i_p o_p s = run_copies (F i_p o_p) s"
  shows "bx_rest channels a b bx i_p o_p s =
         run_copies (concat (map (\<lambda>m. F (i_p + of_nat m * a) (o_p + of_nat m * b)) [0..<unat bx])) s"
proof (induction "unat bx" arbitrary: bx i_p o_p s)
  case 0
  then have "bx = 0" by (simp add: unat_eq_zero)
  then show ?case by (subst bx_rest.simps) simp
next
  case (Suc k)
  have u: "unat bx = Suc k" using Suc.hyps(2) by simp
  then have n: "bx \<noteq> 0" by auto
  have k: "k = unat (bx - 1)" using u n by (simp add: unat_minus_one)
  have "bx_rest channels a b bx i_p o_p s =
        bx_rest channels a b (bx - 1) (i_p + a) (o_p + b) (run_copies (F i_p o_p) s)"
    using n by (subst bx_rest.simps) (simp add: body)
  also have "\<dots> = run_copies (concat (map (\<lambda>m. F (i_p + a + of_nat m * a) (o_p + b + of_nat m * b))
                        [0..<unat (bx - 1)])) (run_copies (F i_p o_p) s)"
    by (rule Suc.hyps(1)[OF k])
  also have "\<dots> = run_copies (concat (map (\<lambda>m. F (i_p + of_nat m * a) (o_p + of_nat m * b))
                        [0..<Suc k])) s"
    unfolding concat_map_upt_Suc run_copies_append k[symmetric]
    by (simp add: algebra_simps)
  finally show ?case unfolding u .
qed

lemma bx_loops_copies:
  assumes body: "\<And>i_p o_p s. channels i_p o_p s = run_copies (F i_p o_p) s"
  shows "(let (bx, i_bx, o_bx, s1) = bx_pairs channels a b block_size i_p o_p s
          in bx_rest channels a b bx i_bx o_bx s1) =
         run_copies (concat (map (\<lambda>m. F (i_p + of_nat m * a) (o_p + of_nat m * b))
                       [0..<unat block_size])) s"
proof -
  from bx_pairs_copies[of channels F block_size a b i_p o_p s, OF body] obtain q where
    q: "q \<le> unat block_size" and
    r: "bx_pairs channels a b block_size i_p o_p s =
             (block_size - of_nat q, i_p + of_nat q * a, o_p + of_nat q * b,
              run_copies (concat (map (\<lambda>m. F (i_p + of_nat m * a) (o_p + of_nat m * b)) [0..<q])) s)"
    by blast
  have u: "unat (block_size - of_nat q) = unat block_size - q"
  proof -
    have "q < 2 ^ 64" using q unsigned_less[of block_size, where 'a=nat] by simp
    then have "unat (of_nat q :: 64 word) = q" by (simp add: unsigned_of_nat take_bit_nat_eq_self)
    moreover have "(of_nat q :: 64 word) \<le> block_size"
      using q by (simp add: word_le_nat_alt \<open>unat (of_nat q :: 64 word) = q\<close>)
    ultimately show ?thesis by (simp add: unat_sub)
  qed
  have s: "[0..<unat block_size] = [0..<q] @ map (\<lambda>m. q + m) [0..<unat block_size - q]"
  proof -
    have "[0..<unat block_size] = [0..<q + (unat block_size - q)]" using q by simp
    also have "\<dots> = [0..<q] @ [q..<q + (unat block_size - q)]"
      by (simp only: upt_add_eq_append[OF le0])
    also have "[q..<q + (unat block_size - q)] = map (\<lambda>m. q + m) [0..<unat block_size - q]"
      by (simp add: map_add_upt add.commute)
    finally show ?thesis .
  qed
  show ?thesis
    unfolding r s
    by (simp add: bx_rest_copies[of channels F, OF body] u run_copies_append comp_def algebra_simps)
qed

lemma kernel_run_copies:
  assumes "output_channels \<noteq> 0" "input_height \<noteq> 0" "input_width \<noteq> 0" "block_size \<noteq> 0"
  shows "xnn_x32_depth_to_space_chw2hwc_ukernel__scalar_c1_ib2 output_channels input_height input_width
           block_size input output input_channel_stride input_height_stride output_height_stride
           output_width_stride s =
         Inr (run_copies (element_copies output_channels input_height input_width block_size input output
                input_channel_stride input_height_stride output_height_stride output_width_stride) s)"
proof -
  define cinc where "cinc = block_size * block_size * input_channel_stride"
  define F1 where "F1 = (\<lambda>(i_p :: addr) (o_p :: addr). concat (map (\<lambda>c. [(o_p + of_nat c * 4, i_p + of_nat c * cinc)])
                          [0..<unat output_channels]))"
  define F2 where "F2 = (\<lambda>(i_p :: addr) (o_p :: addr). concat (map (\<lambda>xb. F1 (i_p + of_nat xb * input_channel_stride)
                          (o_p + of_nat xb * output_width_stride)) [0..<unat block_size]))"
  define F3 where "F3 = (\<lambda>(i_p :: addr) (o_p :: addr). concat (map (\<lambda>ix. F2 (i_p + of_nat ix * 4)
                          (o_p + of_nat ix * (block_size * output_width_stride))) [0..<unat input_width]))"
  define F4 where "F4 = (\<lambda>(i_p :: addr) (o_p :: addr). concat (map (\<lambda>yb. F3 (i_p + of_nat yb * (block_size * input_channel_stride))
                          (o_p + of_nat yb * output_height_stride)) [0..<unat block_size]))"
  define channels where "channels = do_while copy_u32 cinc 4 output_channels"
  define blocks_x where "blocks_x = (\<lambda>i_ix o_ix s.
              let (bx, i_bx, o_bx, s1) =
                    bx_pairs channels input_channel_stride output_width_stride block_size i_ix o_ix s
              in bx_rest channels input_channel_stride output_width_stride bx i_bx o_bx s1)"
  define columns where "columns = do_while blocks_x 4 (block_size * output_width_stride) input_width"
  define blocks_y where "blocks_y = do_while columns (block_size * input_channel_stride)
                           output_height_stride block_size"
  have c0: "copy_u32 i_p o_p s = run_copies ((\<lambda>(i_p :: addr) (o_p :: addr). [(o_p, i_p)]) i_p o_p) s" for i_p o_p s
    by (simp add: run_copies_single)
  have c1: "channels i_p o_p s = run_copies (F1 i_p o_p) s" for i_p o_p s
    unfolding channels_def F1_def by (rule do_while_copies[OF c0 assms(1)])
  have c2: "blocks_x i_p o_p s = run_copies (F2 i_p o_p) s" for i_p o_p s
    unfolding blocks_x_def F2_def by (rule bx_loops_copies[OF c1])
  have c3: "columns i_p o_p s = run_copies (F3 i_p o_p) s" for i_p o_p s
    unfolding columns_def F3_def by (rule do_while_copies[OF c2 assms(3)])
  have c4: "blocks_y i_p o_p s = run_copies (F4 i_p o_p) s" for i_p o_p s
    unfolding blocks_y_def F4_def by (rule do_while_copies[OF c3 assms(4)])
  have c5: "do_while blocks_y input_height_stride (block_size * output_height_stride) input_height
              input output s =
            run_copies (concat (map (\<lambda>iy. F4 (input + of_nat iy * input_height_stride)
                          (output + of_nat iy * (block_size * output_height_stride)))
                          [0..<unat input_height])) s"
    by (rule do_while_copies[OF c4 assms(2)])
  have e: "concat (map (\<lambda>iy. F4 (input + of_nat iy * input_height_stride)
                          (output + of_nat iy * (block_size * output_height_stride)))
                          [0..<unat input_height]) =
           element_copies output_channels input_height input_width block_size input output
                input_channel_stride input_height_stride output_height_stride output_width_stride"
    unfolding element_copies_def F4_def F3_def F2_def F1_def cinc_def element_copy_def
    by (simp add: algebra_simps)
  show ?thesis
    unfolding xnn_x32_depth_to_space_chw2hwc_ukernel__scalar_c1_ib2_def Let_def
    using assms c5
    by (simp add: e channels_def blocks_x_def columns_def blocks_y_def cinc_def)
qed

lemma word_less_4_cases:
  assumes "(d :: 64 word) < 4"
  shows "d = 0 \<or> d = 1 \<or> d = 2 \<or> d = 3"
proof -
  have "unat d < 4" using assms by (simp add: word_less_nat_alt)
  then have "unat d = 0 \<or> unat d = 1 \<or> unat d = 2 \<or> unat d = 3" by linarith
  then have "of_nat (unat d) = (0 :: 64 word) \<or> of_nat (unat d) = (1 :: 64 word) \<or>
             of_nat (unat d) = (2 :: 64 word) \<or> of_nat (unat d) = (3 :: 64 word)"
    by (elim disjE) simp_all
  then show ?thesis by simp
qed

lemma overlap_sym: "overlap a b \<longleftrightarrow> overlap b a"
  by (auto simp add: overlap_def)

lemma overlap_refl [simp]: "overlap a a"
  by (simp add: overlap_def)

lemma overlap_byte:
  assumes "j < 4" "(a + of_nat j) - b < (4 :: 64 word)"
  shows "overlap a b"
proof -
  define d where "d = (a + of_nat j) - b"
  have ab: "a - b = d - of_nat j" "b - a = of_nat j - d" by (simp_all add: d_def)
  have "d < 4" using assms(2) by (simp add: d_def)
  from word_less_4_cases[OF this] lt4_cases[OF assms(1)]
  show ?thesis
    unfolding overlap_def ab by (elim disjE) simp_all
qed

lemma byte_of_element:
  assumes "j < 4"
  shows "(a + of_nat j) - a < (4 :: 64 word)"
  using lt4_cases[OF assms] by (elim disjE) simp_all

lemma run_copies_frame:
  assumes "list_all (\<lambda>e. \<not> x - fst e < 4) es"
  shows "x32_mem (run_copies es s) x = x32_mem s x"
  using assms
proof (induction es arbitrary: s)
  case Nil
  show ?case by simp
next
  case (Cons e es)
  obtain o_c i_c where e: "e = (o_c, i_c)" by (cases e)
  have "run_copies (e # es) s = run_copies es (copy_u32 i_c o_c s)"
    by (simp add: run_copies_def e)
  moreover have "x32_mem (copy_u32 i_c o_c s) x = x32_mem s x"
    using Cons.prems by (simp add: copy_u32_def e)
  ultimately show ?case using Cons.IH[of "copy_u32 i_c o_c s"] Cons.prems by simp
qed

lemma disjoint_outputs_later:
  assumes "disjoint_outputs (xs @ e # ys)"
  shows "list_all (\<lambda>e'. \<not> overlap (fst e) (fst e')) ys"
  using assms by (induction xs) simp_all

lemma disjoint_outputs_distinct:
  assumes "disjoint_outputs es"
  shows "distinct (map fst es)"
  using assms
proof (induction es)
  case Nil
  show ?case by simp
next
  case (Cons e es)
  have "fst e \<notin> fst ` set es"
  proof
    assume "fst e \<in> fst ` set es"
    then obtain e' where "e' \<in> set es" "fst e = fst e'" by auto
    then show False using Cons.prems by (auto simp add: list_all_iff)
  qed
  then show ?case using Cons by simp
qed

lemma run_copies_mem:
  assumes "no_alias es" "k < length es" "j < 4"
  shows "x32_mem (run_copies es s) (fst (es ! k) + of_nat j) = x32_mem s (snd (es ! k) + of_nat j)"
proof -
  obtain o_c i_c where e: "es ! k = (o_c, i_c)" by (cases "es ! k")
  have sp: "es = take k es @ (o_c, i_c) # drop (Suc k) es"
    using id_take_nth_drop[OF assms(2)] e by simp
  have na: "\<not> overlap (fst a) (snd b)" if "a \<in> set es" "b \<in> set es" for a b
    using assms(1) that by (auto simp add: no_alias_def list_all_iff)
  have d: "disjoint_outputs (take k es @ (o_c, i_c) # drop (Suc k) es)"
    using assms(1) sp by (simp add: no_alias_def)
  have mk: "(o_c, i_c) \<in> set es" using e assms(2) by (metis nth_mem)
  define s1 where "s1 = run_copies (take k es) s"
  have 1: "x32_mem s1 (i_c + of_nat j) = x32_mem s (i_c + of_nat j)"
    unfolding s1_def
  proof (rule run_copies_frame, unfold list_all_iff, intro ballI notI)
    fix a assume a: "a \<in> set (take k es)" and "i_c + of_nat j - fst a < 4"
    then have "overlap i_c (fst a)" using overlap_byte[OF assms(3)] by blast
    then have "overlap (fst a) (snd (o_c, i_c))" using overlap_sym by simp
    moreover have "a \<in> set es" using a by (rule in_set_takeD)
    ultimately show False using na mk by blast
  qed
  have 2: "x32_mem (copy_u32 i_c o_c s1) (o_c + of_nat j) = x32_mem s1 (i_c + of_nat j)"
    using byte_of_element[OF assms(3), of o_c] by (simp add: copy_u32_def)
  have 3: "x32_mem (run_copies (drop (Suc k) es) (copy_u32 i_c o_c s1)) (o_c + of_nat j) =
           x32_mem (copy_u32 i_c o_c s1) (o_c + of_nat j)"
  proof (rule run_copies_frame, unfold list_all_iff, intro ballI notI)
    fix a assume a: "a \<in> set (drop (Suc k) es)" and "o_c + of_nat j - fst a < 4"
    then have "overlap o_c (fst a)" using overlap_byte[OF assms(3)] by blast
    moreover have "\<not> overlap (fst (o_c, i_c)) (fst a)"
      using disjoint_outputs_later[OF d] a by (simp add: list_all_iff)
    ultimately show False by simp
  qed
  have "run_copies es s = run_copies (drop (Suc k) es) (copy_u32 i_c o_c s1)"
    by (subst sp) (simp add: run_copies_def s1_def)
  then show ?thesis unfolding e using 1 2 3 by simp
qed

lemma element_copy_in_copies:
  assumes "iy < unat input_height" "yb < unat block_size" "ix < unat input_width"
    "xb < unat block_size" "c < unat output_channels"
  shows "element_copy block_size input output input_channel_stride input_height_stride
           output_height_stride output_width_stride iy yb ix xb c
         \<in> set (element_copies output_channels input_height input_width block_size input output
                  input_channel_stride input_height_stride output_height_stride output_width_stride)"
  unfolding element_copies_def
  apply simp
  apply (rule bexI[of _ iy])
   apply (rule bexI[of _ yb])
    apply (rule bexI[of _ ix])
     apply (rule bexI[of _ xb])
      apply (rule imageI)
  using assms by simp_all

lemma length_concat_map_const:
  assumes "\<And>x. x \<in> set xs \<Longrightarrow> length (f x) = n"
  shows "length (concat (map f xs)) = length xs * n"
  using assms by (induction xs) simp_all

lemma length_element_copies:
  "length (element_copies output_channels input_height input_width block_size input output
             input_channel_stride input_height_stride output_height_stride output_width_stride) =
   unat input_height * (unat block_size * (unat input_width * (unat block_size * unat output_channels)))"
  unfolding element_copies_def
  by (simp add: length_concat_map_const)

lemma example_element_copies:
  "element_copies 2 1 1 3 100 1000 4 4 24 8 =
     [(1000, 100), (1004, 136), (1008, 104), (1012, 140), (1016, 108), (1020, 144),
      (1024, 112), (1028, 148), (1032, 116), (1036, 152), (1040, 120), (1044, 156),
      (1048, 124), (1052, 160), (1056, 128), (1060, 164), (1064, 132), (1068, 168)]"
proof -
  have u: "[0..<2] = [0, 1]" "[0..<3] = [0, 1, 2]" "[0..<1] = [0]"
    by (simp_all add: eval_nat_numeral)
  show ?thesis
    by (simp add: element_copies_def element_copy_def u)
qed

lemma example_no_alias: "no_alias (element_copies 2 1 1 3 100 1000 4 4 24 8)"
  unfolding example_element_copies by (simp add: no_alias_def overlap_def)

section \<open>Claims about the requantization arithmetic\<close>

text \<open>
  C1 (as amended).  For every lane \<open>i\<close> of a vector of Q31 products the kernel
  computes \<open>remainder = (p & remainder_mask) - (p < 0 ? 1 : 0)\<close> and
  \<open>scaled = (p >> shift) + (remainder > remainder_threshold ? 1 : 0)\<close>, where
  \<open>>>\<close> is the signed arithmetic right shift by the count in the low 64 bits of
  \<open>shift\<close>: the comparisons yield \<open>-1\<close>, which line 158 adds and line 163
  subtracts.
\<close>

theorem remainder_and_shift:
  assumes "i < 8"
  shows "(lane i (vrem p q) :: 32 word) =
           (lane i q AND lane (i mod 4) (remainder_mask p)) -
           (if sint (lane i q :: 32 word) < 0 then 1 else 0) \<and>
         (lane i (vscaled p q) :: 32 word) =
           signed_drop_bit (unat (lane 0 (shift p) :: 64 word)) (lane i q) +
           (if sint (lane (i mod 4) (remainder_threshold p) :: 32 word)
                 < sint (lane i (vrem p q) :: 32 word) then 1 else 0)"
  using assms by (simp only: vrem_lane vscaled_lane simp_thms)

theorem remainder_and_shift_witness:
  "(3::nat) < 8 \<and>
   (lane 3 (vrem example_params (splat32 (- 1))) :: 32 word) = 0 \<and>
   (lane 3 (vscaled example_params (splat32 (- 1))) :: 32 word) = - 1"
  using remainder_and_shift[of 3 example_params "splat32 (- 1)"]
  by (simp add: lane_example_params lane_splat32)

text \<open>
  The claim as stated fails: the accumulators \<open>-3\<close> and \<open>6\<close> give the Q31
  products \<open>-1\<close> and \<open>3\<close>; the kernel's remainder of \<open>-1\<close> is not
  \<open>(p & mask) + 1\<close>, and its rescaled value of \<open>3\<close> is not
  \<open>(p >> shift) - 1\<close>.
\<close>

theorem remainder_and_shift_counterexample:
  "(lane 0 (vq31prod example_params (unlanes [- 3, 6, 0, 0, 0, 0, 0, 0 :: 32 word])) :: 32 word) = - 1 \<and>
   (lane 1 (vq31prod example_params (unlanes [- 3, 6, 0, 0, 0, 0, 0, 0 :: 32 word])) :: 32 word) = 3 \<and>
   (lane 0 (vrem example_params
       (vq31prod example_params (unlanes [- 3, 6, 0, 0, 0, 0, 0, 0 :: 32 word]))) :: 32 word)
     \<noteq> (- 1 AND lane 0 (remainder_mask example_params)) + (if sint (- 1 :: 32 word) < 0 then 1 else 0) \<and>
   (lane 1 (vscaled example_params
       (vq31prod example_params (unlanes [- 3, 6, 0, 0, 0, 0, 0, 0 :: 32 word]))) :: 32 word)
     \<noteq> signed_drop_bit (unat (lane 0 (shift example_params) :: 64 word)) 3 -
        (if sint (lane 1 (remainder_threshold example_params) :: 32 word)
              < sint ((3 AND lane 1 (remainder_mask example_params)) +
                      (if sint (3 :: 32 word) < 0 then 1 else 0) :: 32 word)
         then 1 else 0)"
  by (simp add: vrem_lane vscaled_lane vq31prod_lane lane_example_params lane_unlanes)

text \<open>
  C2 (as amended).  With the rounding constant \<open>2^30\<close> and one multiplier in every
  lane, the Q31 product of every 32-bit accumulator is bits 31 to 62 of the exact
  integer \<open>acc * multiplier + 2^30\<close>; read as a signed number it is
  \<open>round (acc * multiplier / 2^31)\<close> (halves rounded up, \<open>round x = \<lfloor>x + 1/2\<rfloor>\<close>)
  unless the accumulator and the multiplier are both \<open>-2^31\<close>.
\<close>

theorem q31_product:
  assumes "i < 8"
    and "\<forall>j<4. (lane j (multiplier p) :: 32 word) = m"
    and "\<forall>k<2. (lane k (rounding p) :: 64 word) = 0x40000000"
  shows "uint (lane i (vq31prod p vacc) :: 32 word) =
           take_bit 32 (drop_bit 31 (sint (lane i vacc :: 32 word) * sint m + 2 ^ 30)) \<and>
         (\<not> (lane i vacc = (0x80000000 :: 32 word) \<and> m = 0x80000000) \<longrightarrow>
          sint (lane i (vq31prod p vacc) :: 32 word) =
            round (real_of_int (sint (lane i vacc :: 32 word) * sint m) / 2 ^ 31))"
proof -
  have "uint (lane i (vq31prod p vacc) :: 32 word) =
           take_bit 32 (drop_bit 31 (sint (lane i vacc :: 32 word) * sint m + 2 ^ 30))"
    unfolding vq31prod_word[OF assms] q31_uint by (simp add: q31_sint)
  moreover have "sint (lane i (vq31prod p vacc) :: 32 word) =
            round (real_of_int (sint (lane i vacc :: 32 word) * sint m) / 2 ^ 31)"
    if "\<not> (lane i vacc = (0x80000000 :: 32 word) \<and> m = 0x80000000)"
    unfolding round_q31 by (rule vq31prod_sint[OF assms that])
  ultimately show ?thesis by simp
qed

theorem q31_product_witness:
  "(5::nat) < 8 \<and>
   (lane 0 (multiplier example_params) :: 32 word) = 0x40000000 \<and>
   (lane 1 (multiplier example_params) :: 32 word) = 0x40000000 \<and>
   (lane 2 (multiplier example_params) :: 32 word) = 0x40000000 \<and>
   (lane 3 (multiplier example_params) :: 32 word) = 0x40000000 \<and>
   (lane 0 (rounding example_params) :: 64 word) = 0x40000000 \<and>
   (lane 1 (rounding example_params) :: 64 word) = 0x40000000 \<and>
   uint (lane 5 (vq31prod example_params (splat32 (- 3))) :: 32 word) = 4294967295 \<and>
   \<not> (lane 5 (splat32 (- 3)) = (0x80000000 :: 32 word) \<and> (0x40000000 :: 32 word) = 0x80000000) \<and>
   sint (lane 5 (vq31prod example_params (splat32 (- 3))) :: 32 word) = - 1"
proof -
  have h: "\<forall>j<4. (lane j (multiplier example_params) :: 32 word) = 0x40000000"
    "\<forall>k<2. (lane k (rounding example_params) :: 64 word) = 0x40000000"
    by (simp_all add: lane_example_params)
  have s: "sint (lane 5 (splat32 (- 3)) :: 32 word) * sint (0x40000000 :: 32 word) = - 3221225472"
    by (simp add: lane_splat32)
  have ne: "\<not> (lane 5 (splat32 (- 3)) = (0x80000000 :: 32 word) \<and> (0x40000000 :: 32 word) = 0x80000000)"
    by simp
  note t = q31_product[of 5 example_params "0x40000000" "splat32 (- 3)", OF _ h, unfolded s round_q31]
  have "uint (lane 5 (vq31prod example_params (splat32 (- 3))) :: 32 word) = 4294967295"
    using t by (simp add: mask_eq_exp_minus_1)
  moreover have "sint (lane 5 (vq31prod example_params (splat32 (- 3))) :: 32 word) = - 1"
    using t ne by simp
  ultimately show ?thesis using ne by (simp add: lane_example_params)
qed

text \<open>
  The claim as stated fails where the accumulator and the multiplier are both
  \<open>-2^31\<close>: the exact quotient is \<open>2^31\<close>, which bits 31 to 62 hold as
  \<open>-2^31\<close>.
\<close>

theorem q31_product_counterexample:
  "sint (lane 0 (vq31prod (uniform_params 0x80000000 0x40000000 1 0 1 0 (- 128) 127) (splat32 0x80000000)) :: 32 word)
     \<noteq> round (real_of_int (sint (lane 0 (splat32 0x80000000) :: 32 word) * sint (0x80000000 :: 32 word)) / 2 ^ 31)"
proof -
  have "sint (lane 0 (vq31prod (uniform_params 0x80000000 0x40000000 1 0 1 0 (- 128) 127) (splat32 0x80000000)) :: 32 word)
        = - 2147483648"
    by (simp add: vq31prod_lane lane_uniform_params lane_splat32)
  moreover have "round (real_of_int (sint (lane 0 (splat32 0x80000000) :: 32 word) * sint (0x80000000 :: 32 word)) / 2 ^ 31)
        = 2147483648"
    by (simp add: lane_splat32 round_q31)
  ultimately show ?thesis by simp
qed

text \<open>
  C6.  Let the output bounds of lane \<open>l\<close> satisfy \<open>output_min \<le> output_max\<close> and lie
  in the signed 8-bit range.  Write \<open>a\<close> for the rescaled accumulator of lane \<open>l\<close>
  after lines 142-163, \<open>zp\<close> for the zero point, and \<open>z\<close> for \<open>a\<close> narrowed to 16
  bits with saturation and added to \<open>zp\<close> with saturation to 16 bits.  The byte
  that the full tile stores at \<open>output + l\<close>, and the byte that a tail of more than
  \<open>l\<close> channels stores there, is \<open>z\<close> clamped to the bounds, as an integer and not
  modulo 256: it is \<open>output_max\<close> when \<open>z\<close> exceeds \<open>output_max\<close> and
  \<open>output_min\<close> when \<open>z\<close> is below \<open>output_min\<close>.  When
  \<open>output_max - 32767 \<le> zp \<le> output_min + 32768\<close>, as for every zero point in the
  signed 8-bit range, the same holds of the exact sum \<open>a + zp\<close>.  For a zero point
  outside that range it does not: with \<open>zp = -32768\<close> and \<open>a = 4210753\<close> the exact
  sum exceeds \<open>output_max = 127\<close> and the stored byte is \<open>-1\<close>.
\<close>

theorem stored_output_clamped:
  assumes "length ptrs = 9" "l < 8"
    and "sint (lane l (output_min p) :: 16 word) \<le> sint (lane l (output_max p) :: 16 word)"
    and "- 128 \<le> sint (lane l (output_min p) :: 16 word)"
    and "sint (lane l (output_max p) :: 16 word) \<le> 127"
  shows "let a = sint (lane l (vscaled p (vq31prod p (fst (accumulate w ptrs s)))) :: 32 word);
             zp = sint (lane l (output_zero_point p) :: 16 word);
             lo = sint (lane l (output_min p) :: 16 word);
             hi = sint (lane l (output_max p) :: 16 word);
             z = max (- 32768) (min 32767 (max (- 32768) (min 32767 a) + zp));
             b = sint (mem (snd (snd (snd (full_tile p (w, ptrs, out, s))))) (out + of_nat l))
         in b = min (max z lo) hi \<and> (hi < z \<longrightarrow> b = hi) \<and> (z < lo \<longrightarrow> b = lo) \<and>
            lo \<le> b \<and> b \<le> hi \<and>
            (hi - 32767 \<le> zp \<and> zp \<le> lo + 32768 \<longrightarrow>
               b = min (max (a + zp) lo) hi \<and> (hi < a + zp \<longrightarrow> b = hi) \<and> (a + zp < lo \<longrightarrow> b = lo)) \<and>
            (\<forall>c. l < c \<and> c < 8 \<longrightarrow>
               sint (mem (snd (tail_tile p c (w, ptrs, out, s))) (out + of_nat l)) = b)"
proof -
  define a where "a = sint (lane l (vscaled p (vq31prod p (fst (accumulate w ptrs s)))) :: 32 word)"
  define zp where "zp = sint (lane l (output_zero_point p) :: 16 word)"
  define lo where "lo = sint (lane l (output_min p) :: 16 word)"
  define hi where "hi = sint (lane l (output_max p) :: 16 word)"
  define z where "z = max (- 32768) (min 32767 (max (- 32768) (min 32767 a) + zp))"
  define b where "b = sint (mem (snd (snd (snd (full_tile p (w, ptrs, out, s))))) (out + of_nat l))"
  have h: "lo \<le> hi" "- 128 \<le> lo" "hi \<le> 127"
    using assms(3-5) unfolding lo_def hi_def by simp_all
  have b: "b = min (max z lo) hi"
    unfolding b_def z_def a_def zp_def lo_def hi_def by (rule stored_byte(1)[OF assms])
  have t: "sint (mem (snd (tail_tile p c (w, ptrs, out, s))) (out + of_nat l)) = b"
    if "l < c" "c < 8" for c
    unfolding b z_def a_def zp_def lo_def hi_def by (rule stored_byte(2)[OF assms that])
  have e: "min (max z lo) hi = min (max (a + zp) lo) hi" if "hi - 32767 \<le> zp" "zp \<le> lo + 32768"
    unfolding z_def by (rule clamp_exact[OF h that])
  have "b = min (max z lo) hi \<and> (hi < z \<longrightarrow> b = hi) \<and> (z < lo \<longrightarrow> b = lo) \<and>
            lo \<le> b \<and> b \<le> hi \<and>
            (hi - 32767 \<le> zp \<and> zp \<le> lo + 32768 \<longrightarrow>
               b = min (max (a + zp) lo) hi \<and> (hi < a + zp \<longrightarrow> b = hi) \<and> (a + zp < lo \<longrightarrow> b = lo)) \<and>
            (\<forall>c. l < c \<and> c < 8 \<longrightarrow>
               sint (mem (snd (tail_tile p c (w, ptrs, out, s))) (out + of_nat l)) = b)"
    using b e h t by (auto simp add: min_def max_def)
  then show ?thesis
    unfolding Let_def a_def zp_def lo_def hi_def z_def b_def .
qed

theorem stored_output_clamped_witness:
  "length (replicate 9 (0x0303030303030303 :: addr)) = 9 \<and> (2 :: nat) < 8 \<and>
   sint (lane 2 (output_min example_params) :: 16 word) \<le> sint (lane 2 (output_max example_params) :: 16 word) \<and>
   - 128 \<le> sint (lane 2 (output_min example_params) :: 16 word) \<and>
   sint (lane 2 (output_max example_params) :: 16 word) \<le> 127 \<and>
   sint (lane 2 (output_max example_params) :: 16 word) = 127 \<and>
   sint (lane 2 (output_zero_point example_params) :: 16 word) = 0 \<and>
   sint (lane 2 (vscaled example_params (vq31prod example_params
          (fst (accumulate 2000 (replicate 9 0x0303030303030303) example_machine)))) :: 32 word) = 4210753 \<and>
   sint (mem (snd (snd (snd (full_tile example_params
          (2000, replicate 9 0x0303030303030303, 1000, example_machine))))) 1002) = 127 \<and>
   sint (mem (snd (tail_tile example_params 4
          (2000, replicate 9 0x0303030303030303, 1000, example_machine))) 1002) = 127"
proof -
  have l: "length (replicate 9 (0x0303030303030303 :: addr)) = 9" and i: "(2 :: nat) < 8"
    by simp_all
  have h: "sint (lane 2 (output_min example_params) :: 16 word) \<le> sint (lane 2 (output_max example_params) :: 16 word)"
    "- 128 \<le> sint (lane 2 (output_min example_params) :: 16 word)"
    "sint (lane 2 (output_max example_params) :: 16 word) \<le> 127"
    by (simp_all add: lane_example_params)
  have v: "sint (lane 2 (output_max example_params) :: 16 word) = 127"
    "sint (lane 2 (output_min example_params) :: 16 word) = - 128"
    "sint (lane 2 (output_zero_point example_params) :: 16 word) = 0"
    by (simp_all add: lane_example_params)
  have a: "(lane 2 (vscaled example_params (vq31prod example_params
          (fst (accumulate 2000 (replicate 9 0x0303030303030303) example_machine)))) :: 32 word) = 4210753"
    by (rule example_scaled) (simp_all add: lane_example_params)
  have a': "sint (lane 2 (vscaled example_params (vq31prod example_params
          (fst (accumulate 2000 (replicate 9 0x0303030303030303) example_machine)))) :: 32 word) = 4210753"
    unfolding a by simp
  note t = stored_output_clamped[OF l i h, where w=2000 and out=1000 and s=example_machine, unfolded Let_def a' v]
  have b: "sint (mem (snd (snd (snd (full_tile example_params
          (2000, replicate 9 0x0303030303030303, 1000, example_machine))))) 1002) = 127"
    using t by simp
  have c: "sint (mem (snd (tail_tile example_params 4
          (2000, replicate 9 0x0303030303030303, 1000, example_machine))) 1002) = 127"
    using t b by simp
  show ?thesis
    by (intro conjI) (rule l i h v a' b c)+
qed

theorem stored_output_counterexample:
  "sint (lane 2 (vscaled extreme_zero_point_params (vq31prod extreme_zero_point_params
          (fst (accumulate 2000 (replicate 9 0x0303030303030303) example_machine)))) :: 32 word) +
     sint (lane 2 (output_zero_point extreme_zero_point_params) :: 16 word) = 4177985 \<and>
   sint (lane 2 (output_max extreme_zero_point_params) :: 16 word) = 127 \<and>
   sint (mem (snd (snd (snd (full_tile extreme_zero_point_params
          (2000, replicate 9 0x0303030303030303, 1000, example_machine))))) 1002) = - 1"
proof -
  have l: "length (replicate 9 (0x0303030303030303 :: addr)) = 9" and i: "(2 :: nat) < 8"
    by simp_all
  have h: "sint (lane 2 (output_min extreme_zero_point_params) :: 16 word) \<le>
           sint (lane 2 (output_max extreme_zero_point_params) :: 16 word)"
    "- 128 \<le> sint (lane 2 (output_min extreme_zero_point_params) :: 16 word)"
    "sint (lane 2 (output_max extreme_zero_point_params) :: 16 word) \<le> 127"
    by (simp_all add: lane_extreme_zero_point_params)
  have v: "sint (lane 2 (output_max extreme_zero_point_params) :: 16 word) = 127"
    "sint (lane 2 (output_min extreme_zero_point_params) :: 16 word) = - 128"
    "sint (lane 2 (output_zero_point extreme_zero_point_params) :: 16 word) = - 32768"
    by (simp_all add: lane_extreme_zero_point_params)
  have a: "(lane 2 (vscaled extreme_zero_point_params (vq31prod extreme_zero_point_params
          (fst (accumulate 2000 (replicate 9 0x0303030303030303) example_machine)))) :: 32 word) = 4210753"
    by (rule example_scaled) (simp_all add: lane_extreme_zero_point_params)
  have a': "sint (lane 2 (vscaled extreme_zero_point_params (vq31prod extreme_zero_point_params
          (fst (accumulate 2000 (replicate 9 0x0303030303030303) example_machine)))) :: 32 word) = 4210753"
    unfolding a by simp
  note t = stored_byte(1)[OF l i h, where w=2000 and out=1000 and s=example_machine, unfolded a' v]
  have b: "sint (mem (snd (snd (snd (full_tile extreme_zero_point_params
          (2000, replicate 9 0x0303030303030303, 1000, example_machine))))) 1002) = - 1"
    using t by simp
  show ?thesis
    unfolding a' v b by simp
qed

text \<open>
  C9.  Let the parameter block hold one multiplier in every lane, the rounding
  constant \<open>2^30\<close>, a shift \<open>s \<le> 31\<close>, the remainder mask \<open>2^s - 1\<close> and
  the remainder threshold \<open>(2^s - 1) >> 1\<close>.  For two accumulators \<open>v\<close> and
  \<open>-v\<close> (the 32-bit negation) in lane \<open>i\<close>, the magnitudes of the rounding
  errors of lines 142-163 differ by at most one unit in the last place of the result.
\<close>

theorem rounding_symmetry:
  assumes "i < 8"
    and "\<forall>j<4. (lane j (multiplier p) :: 32 word) = m"
    and "\<forall>k<2. (lane k (rounding p) :: 64 word) = 0x40000000"
    and "unat (lane 0 (shift p) :: 64 word) \<le> 31"
    and "\<forall>j<4. (lane j (remainder_mask p) :: 32 word) = mask (unat (lane 0 (shift p) :: 64 word))"
    and "\<forall>j<4. (lane j (remainder_threshold p) :: 32 word) =
               drop_bit 1 (mask (unat (lane 0 (shift p) :: 64 word)))"
    and neg: "(lane i b :: 32 word) = - lane i a"
  shows "\<bar>\<bar>rounding_error p a i\<bar> - \<bar>rounding_error p b i\<bar>\<bar> \<le> 1"
proof (cases "(lane i a :: 32 word) = 0x80000000")
  case True
  then have "(lane i a :: 32 word) = lane i b" using neg by simp
  then have "rounding_error p a i = rounding_error p b i"
    by (rule rounding_error_lane[OF assms(1)])
  then show ?thesis by simp
next
  case False
  have "(lane i b :: 32 word) \<noteq> 0x80000000"
  proof
    assume "(lane i b :: 32 word) = 0x80000000"
    then have "- (- lane i a :: 32 word) = - 0x80000000" using neg by simp
    then have "(lane i a :: 32 word) = 0x80000000" by simp
    with False show False by simp
  qed
  then have "\<bar>rounding_error p b i\<bar> \<le> 1"
    by (rule rounding_error_bound[OF assms(1-6)])
  moreover have "\<bar>rounding_error p a i\<bar> \<le> 1"
    using False by (rule rounding_error_bound[OF assms(1-6)])
  ultimately show ?thesis by linarith
qed

theorem rounding_symmetry_witness:
  "(3::nat) < 8 \<and>
   (lane 0 (multiplier example_params) :: 32 word) = 0x40000000 \<and>
   (lane 1 (multiplier example_params) :: 32 word) = 0x40000000 \<and>
   (lane 2 (multiplier example_params) :: 32 word) = 0x40000000 \<and>
   (lane 3 (multiplier example_params) :: 32 word) = 0x40000000 \<and>
   (lane 0 (rounding example_params) :: 64 word) = 0x40000000 \<and>
   (lane 1 (rounding example_params) :: 64 word) = 0x40000000 \<and>
   unat (lane 0 (shift example_params) :: 64 word) = 1 \<and>
   (lane 0 (remainder_mask example_params) :: 32 word) = mask 1 \<and>
   (lane 1 (remainder_mask example_params) :: 32 word) = mask 1 \<and>
   (lane 2 (remainder_mask example_params) :: 32 word) = mask 1 \<and>
   (lane 3 (remainder_mask example_params) :: 32 word) = mask 1 \<and>
   (lane 0 (remainder_threshold example_params) :: 32 word) = drop_bit 1 (mask 1) \<and>
   (lane 1 (remainder_threshold example_params) :: 32 word) = drop_bit 1 (mask 1) \<and>
   (lane 2 (remainder_threshold example_params) :: 32 word) = drop_bit 1 (mask 1) \<and>
   (lane 3 (remainder_threshold example_params) :: 32 word) = drop_bit 1 (mask 1) \<and>
   (lane 3 (splat32 (- 5)) :: 32 word) = - lane 3 (splat32 5) \<and>
   rounding_error example_params (splat32 5) 3 = 3 / 4 \<and>
   rounding_error example_params (splat32 (- 5)) 3 = 1 / 4 \<and>
   \<bar>\<bar>rounding_error example_params (splat32 5) 3\<bar> -
    \<bar>rounding_error example_params (splat32 (- 5)) 3\<bar>\<bar> \<le> 1"
proof -
  have e: "rounding_error example_params (splat32 5) 3 = 3 / 4"
    "rounding_error example_params (splat32 (- 5)) 3 = 1 / 4"
    by (simp_all add: rounding_error_def vscaled_lane vrem_lane vq31prod_lane
          lane_example_params lane_splat32)
  have h: "\<forall>j<4. (lane j (multiplier example_params) :: 32 word) = 0x40000000"
    "\<forall>k<2. (lane k (rounding example_params) :: 64 word) = 0x40000000"
    "unat (lane 0 (shift example_params) :: 64 word) \<le> 31"
    "\<forall>j<4. (lane j (remainder_mask example_params) :: 32 word) =
        mask (unat (lane 0 (shift example_params) :: 64 word))"
    "\<forall>j<4. (lane j (remainder_threshold example_params) :: 32 word) =
        drop_bit 1 (mask (unat (lane 0 (shift example_params) :: 64 word)))"
    "(lane 3 (splat32 (- 5)) :: 32 word) = - lane 3 (splat32 5)"
    by (simp_all add: lane_example_params lane_splat32)
  have "\<bar>\<bar>rounding_error example_params (splat32 5) 3\<bar> -
    \<bar>rounding_error example_params (splat32 (- 5)) 3\<bar>\<bar> \<le> 1"
    by (rule rounding_symmetry[of 3 example_params "0x40000000" "splat32 (- 5)" "splat32 5", OF _ h]) simp
  then show ?thesis using e by (simp add: lane_example_params lane_splat32)
qed

section \<open>Claims about the accesses of the depthwise kernel\<close>

text \<open>
  C3 (as amended).  The output pointer is advanced by \<open>output_increment\<close> after
  every column, inside the loop over \<open>output_width\<close>: column \<open>j\<close> stores its
  \<open>channels\<close> bytes from \<open>output + j * (channels + output_increment)\<close> on, a
  store of 8 bytes for each full tile and then the stores of the tail, and the kernel
  ends with the pointer at \<open>output + output_width * (channels + output_increment)\<close>.
\<close>

theorem output_advance:
  assumes "xnn_qs8_dwconv_minmax_ukernel_up8x9__avx2_mul32 channels output_width input weights output
             input_stride output_increment input_offset zero p s = Inr (out', s')"
  shows "stores (trace s') = stores (trace s) @
           concat (map (\<lambda>j. column_stores channels
                               (output + of_nat j * (of_nat channels + output_increment)))
                     [0..<output_width]) \<and>
         out' = output + of_nat output_width * (of_nat channels + output_increment)"
proof -
  from assms have
    "columns p channels weights input_stride output_increment input_offset zero output_width input output s
       = Inr (out', s')"
    by (simp add: xnn_qs8_dwconv_minmax_ukernel_up8x9__avx2_mul32_def split: if_splits)
  from columns_Inr[OF this] show ?thesis by simp
qed

theorem output_advance_witness:
  "example_run = Inr (fst (projr example_run), snd (projr example_run)) \<and>
   stores (trace (snd (projr example_run))) = [(1000, 8), (1011, 8)] \<and>
   fst (projr example_run) = 1022"
proof -
  from example_run_Inr obtain s' where e: "example_run = Inr (1022, s')" by blast
  have r: "example_run = Inr (fst (projr example_run), snd (projr example_run))"
    unfolding e by simp
  from output_advance[OF r[unfolded example_run_def], folded example_run_def]
  show ?thesis using r by (simp add: example_machine_def numeral_2_eq_2)
qed

text \<open>
  The claim as stated fails: with 8 channels and an increment of 3 the second column
  is stored at \<open>output + 11\<close>, not at \<open>output + 8\<close>.
\<close>

theorem output_advance_counterexample:
  "stores (trace (snd (projr example_run))) = [(1000, 8), (1011, 8)] \<and>
   concat (map (\<lambda>j. column_stores 8 (1000 + of_nat j * 8)) [0..<2]) = [(1000, 8), (1008, 8)] \<and>
   stores (trace (snd (projr example_run))) \<noteq>
     concat (map (\<lambda>j. column_stores 8 (1000 + of_nat j * 8)) [0..<2])"
proof -
  from example_run_Inr obtain s' where
    e: "example_run = Inr (1022, s')" and t: "stores (trace s') = [(1000, 8), (1011, 8)]" by blast
  have "stores (trace (snd (projr example_run))) = [(1000, 8), (1011, 8)]"
    unfolding e using t by simp
  moreover have "concat (map (\<lambda>j. column_stores 8 ((1000 :: addr) + of_nat j * 8)) [0..<2]) = [(1000, 8), (1008, 8)]"
    by (simp add: numeral_2_eq_2)
  ultimately show ?thesis by simp
qed

text \<open>
  C8.  In every column and for every tap \<open>k < 9\<close>, the kernel reads the input bytes
  of tile \<open>t\<close> at the tap's pointer plus \<open>input_offset\<close> plus \<open>8 * t\<close> when
  the indirection entry \<open>input[k]\<close> differs from the zero sentinel, and at the entry
  itself plus \<open>8 * t\<close> when it is the sentinel: the offset is added exactly when the
  two pointers differ.  A column of \<open>channels\<close> channels has
  \<open>(channels + 7) div 8\<close> tiles, the tail included.
\<close>

theorem tap_reads:
  assumes "column p channels weights output_increment input_offset zero input output s = Inr (out', s')"
    and "k < 9"
  shows "row_loads k (trace s') = row_loads k (trace s) @
           map (\<lambda>t. (if indirection_entry s input k \<noteq> zero
                       then indirection_entry s input k + input_offset
                       else indirection_entry s input k) + 8 * of_nat t)
             [0..<(channels + 7) div 8]"
proof -
  have "map (\<lambda>k. tap_pointer input_offset zero (indirection_entry s input k)) [0..<9] ! k =
        (if indirection_entry s input k \<noteq> zero
         then indirection_entry s input k + input_offset
         else indirection_entry s input k)"
    using assms(2) by (simp add: tap_pointer_def del: upt_Suc)
  then show ?thesis
    using column_Inr(3)[OF assms] by simp
qed

theorem tap_reads_witness:
  "example_column = Inr (fst (projr example_column), snd (projr example_column)) \<and>
   (0 :: nat) < 9 \<and> (1 :: nat) < 9 \<and>
   indirection_entry example_machine 100 0 = 0x0303030303030303 \<and>
   indirection_entry example_machine 100 1 = 0x0101010101010101 \<and>
   row_loads 0 (trace (snd (projr example_column))) =
     [0x0303030303030303, 0x0303030303030303 + 8, 0x0303030303030303 + 16] \<and>
   row_loads 1 (trace (snd (projr example_column))) =
     [0x0101010101010101 + 16, 0x0101010101010101 + 16 + 8, 0x0101010101010101 + 16 + 16]"
proof -
  have "\<forall>k<9. indirection_entry example_machine 100 k \<noteq> 0"
    by (simp add: example_entries0)
  from column_total[OF this] obtain out' s' where
    e: "example_column = Inr (out', s')" unfolding example_column_def by blast
  have r: "example_column = Inr (fst (projr example_column), snd (projr example_column))"
    unfolding e by simp
  have "(3 :: nat) = Suc (Suc (Suc 0))" by simp
  then have u: "[0..<3] = [0, 1, 2]" by (simp del: upt_Suc add: upt_conv_Cons)
  note t = tap_reads[OF r[unfolded example_column_def], folded example_column_def]
  show ?thesis
    using r t[of 0] t[of 1] by (simp add: example_entries0 trace_example_machine u)
qed

text \<open>
  C7.  Let the indirection entry of tap \<open>k\<close> be the zero sentinel, so that the
  tap's pointer is the sentinel itself, advanced by 8 for each tile before; and let
  the zero buffer hold zeros in the eight bytes that tile \<open>t\<close> reads.  Then the tap
  leaves each of the eight accumulators as it was, for every memory content at the
  packed weights.
\<close>

theorem zero_tap:
  assumes "i < 8"
    and "entry = zero"
    and "ptrs ! k = tap_pointer input_offset zero entry + 8 * of_nat t"
    and "\<forall>j<8. mem s (zero + 8 * of_nat t + of_nat j) = 0"
  shows "(lane i (fst (accumulate_tap w k (vacc, ptrs, s))) :: 32 word) = lane i vacc"
proof -
  have "ptrs ! k = zero + 8 * of_nat t"
    using assms(2,3) by (simp add: tap_pointer_def)
  then have "mem s (ptrs ! k + of_nat i) = 0"
    using assms(1,4) by simp
  then show ?thesis
    by (simp add: accumulate_tap_lane[OF assms(1)])
qed

theorem zero_tap_witness:
  "(2 :: nat) < 8 \<and>
   (replicate 9 (0x0303030303030303 :: addr))[4 := 0x0303030303030303 + 8] ! 4 =
     tap_pointer 16 0x0303030303030303 0x0303030303030303 + 8 * of_nat 1 \<and>
   mem example_machine (0x0303030303030303 + 8 * of_nat 1 + of_nat 0) = 0 \<and>
   mem example_machine (0x0303030303030303 + 8 * of_nat 1 + of_nat 1) = 0 \<and>
   mem example_machine (0x0303030303030303 + 8 * of_nat 1 + of_nat 2) = 0 \<and>
   mem example_machine (0x0303030303030303 + 8 * of_nat 1 + of_nat 3) = 0 \<and>
   mem example_machine (0x0303030303030303 + 8 * of_nat 1 + of_nat 4) = 0 \<and>
   mem example_machine (0x0303030303030303 + 8 * of_nat 1 + of_nat 5) = 0 \<and>
   mem example_machine (0x0303030303030303 + 8 * of_nat 1 + of_nat 6) = 0 \<and>
   mem example_machine (0x0303030303030303 + 8 * of_nat 1 + of_nat 7) = 0 \<and>
   mem example_machine (2000 + 32 + 8 * of_nat 4 + of_nat 2) = 1 \<and>
   (lane 2 (fst (accumulate_tap 2000 4
        (splat32 9, (replicate 9 0x0303030303030303)[4 := 0x0303030303030303 + 8], example_machine)))
      :: 32 word) = 9"
proof -
  have m: "mem example_machine (0x0303030303030303 + 8 * of_nat 1 + of_nat 0) = 0"
    "mem example_machine (0x0303030303030303 + 8 * of_nat 1 + of_nat 1) = 0"
    "mem example_machine (0x0303030303030303 + 8 * of_nat 1 + of_nat 2) = 0"
    "mem example_machine (0x0303030303030303 + 8 * of_nat 1 + of_nat 3) = 0"
    "mem example_machine (0x0303030303030303 + 8 * of_nat 1 + of_nat 4) = 0"
    "mem example_machine (0x0303030303030303 + 8 * of_nat 1 + of_nat 5) = 0"
    "mem example_machine (0x0303030303030303 + 8 * of_nat 1 + of_nat 6) = 0"
    "mem example_machine (0x0303030303030303 + 8 * of_nat 1 + of_nat 7) = 0"
    by (simp_all add: example_machine_def)
  have z: "\<forall>j<8. mem example_machine (0x0303030303030303 + 8 * of_nat 1 + of_nat j) = 0"
  proof (intro allI impI)
    fix j :: nat assume "j < 8"
    from lt8_cases[OF this] show "mem example_machine (0x0303030303030303 + 8 * of_nat 1 + of_nat j) = 0"
      using m by (elim disjE) simp_all
  qed
  have w: "mem example_machine (2000 + 32 + 8 * of_nat 4 + of_nat 2) = 1"
    by (simp add: example_machine_def)
  have p: "(replicate 9 (0x0303030303030303 :: addr))[4 := 0x0303030303030303 + 8] ! 4 =
     tap_pointer 16 0x0303030303030303 0x0303030303030303 + 8 * of_nat 1"
    by (simp add: tap_pointer_def)
  have l: "(lane 2 (splat32 9) :: 32 word) = 9"
    by (simp add: lane_splat32)
  have t: "(2 :: nat) < 8" by simp
  note r = zero_tap[of 2 "0x0303030303030303" "0x0303030303030303" _ 4 16 1 example_machine 2000 "splat32 9", OF t refl p z]
  note e = trans[OF r l]
  show ?thesis
    by (intro conjI) (rule t p m w e)+
qed

text \<open>
  C4.  The tail tile reads a tile of full width, whatever the number \<open>c\<close> of channels
  left: its loads from the packed weights reach 104 bytes from \<open>w\<close> (32 bytes of
  biases, then 8 bytes of weights for each of the 9 taps), and its load from each
  input row reaches 8 bytes from the tap's pointer.  The reads do not stay within a
  partial tile of \<open>c\<close> biases and \<open>c\<close> weights per tap, \<open>13 * c\<close> bytes, nor within
  \<open>c\<close> bytes of an input row: the final tile has to be padded to the full width.
\<close>

theorem tail_reads_full_tile:
  assumes "length ptrs = 9"
  shows "extent packed w (drop (length (trace s)) (trace (snd (tail_tile p c (w, ptrs, out, s))))) = 104 \<and>
         map (\<lambda>k. extent (\<lambda>r. r = InputRow k) (ptrs ! k)
                (drop (length (trace s)) (trace (snd (tail_tile p c (w, ptrs, out, s)))))) [0..<9] =
         replicate 9 8"
  using tail_tile_extent[OF assms] by simp

theorem tail_reads_full_tile_witness:
  "length (replicate 9 (0x0303030303030303 :: addr)) = 9 \<and>
   extent packed 2000 (drop (length (trace example_machine))
     (trace (snd (tail_tile example_params 1
        (2000, replicate 9 0x0303030303030303, 1000, example_machine))))) = 104 \<and>
   map (\<lambda>k. extent (\<lambda>r. r = InputRow k) (replicate 9 (0x0303030303030303 :: addr) ! k)
          (drop (length (trace example_machine))
             (trace (snd (tail_tile example_params 1
                (2000, replicate 9 0x0303030303030303, 1000, example_machine)))))) [0..<9] =
     replicate 9 8"
proof -
  have l: "length (replicate 9 (0x0303030303030303 :: addr)) = 9" by simp
  from tail_reads_full_tile[OF l] l show ?thesis by blast
qed

theorem tail_reads_counterexample:
  "\<not> extent packed 2000 (drop (length (trace example_machine))
       (trace (snd (tail_tile example_params 1
          (2000, replicate 9 0x0303030303030303, 1000, example_machine))))) \<le> 13 * 1 \<and>
   \<not> extent (\<lambda>r. r = InputRow 0) (replicate 9 (0x0303030303030303 :: addr) ! 0)
       (drop (length (trace example_machine))
         (trace (snd (tail_tile example_params 1
            (2000, replicate 9 0x0303030303030303, 1000, example_machine))))) \<le> 1"
proof -
  have l: "length (replicate 9 (0x0303030303030303 :: addr)) = 9" by simp
  have "extent (\<lambda>r. r = InputRow 0) (replicate 9 (0x0303030303030303 :: addr) ! 0)
          (tile_loads 2000 (replicate 9 0x0303030303030303)) = 8"
    by (simp add: tile_loads_def upt_9)
  then show ?thesis
    by (simp add: tail_tile_trace(1)[OF l] extent_packed_tile_loads extent_append)
qed

text \<open>
  C5.  Take the tail of \<open>r\<close> channels, \<open>0 < r < 8\<close>, and the full tile from the same
  state: the same pointer \<open>w\<close> into the packed weights, the same tap pointers, the
  same memory and the same parameters.  Byte \<open>j < r\<close> that the tail leaves at
  \<open>output + j\<close> is lane \<open>j\<close> of the requantized accumulators, and so is the byte
  that the full tile leaves there.  The tail stores what \<open>tail_stores\<close> lists: the
  sizes are those of 4, 2 and 1, in this order, that are bits of \<open>r\<close>, and every byte
  outside \<open>output, ..., output + r - 1\<close> is left as it was.
\<close>

theorem tail_matches_full_tile:
  assumes "length ptrs = 9" "0 < r" "r < 8"
  shows "(\<forall>j<r. mem (snd (tail_tile p r (w, ptrs, out, s))) (out + of_nat j) =
                   lane j (requantize p (fst (accumulate w ptrs s))) \<and>
                 mem (snd (snd (snd (full_tile p (w, ptrs, out, s))))) (out + of_nat j) =
                   lane j (requantize p (fst (accumulate w ptrs s)))) \<and>
         stores (trace (snd (tail_tile p r (w, ptrs, out, s)))) = stores (trace s) @ tail_stores r out \<and>
         map snd (tail_stores r out) = filter (\<lambda>m. r AND m \<noteq> 0) [4, 2, 1] \<and>
         (\<forall>x. (\<forall>j<r. x \<noteq> out + of_nat j) \<longrightarrow>
               mem (snd (tail_tile p r (w, ptrs, out, s))) x = mem s x)"
proof (intro conjI allI impI)
  fix j assume j: "j < r"
  show "mem (snd (tail_tile p r (w, ptrs, out, s))) (out + of_nat j) =
          lane j (requantize p (fst (accumulate w ptrs s)))"
    by (rule tail_tile_mem[OF assms(1,3) j])
  have "j < 8" using j assms(3) by simp
  then show "mem (snd (snd (snd (full_tile p (w, ptrs, out, s))))) (out + of_nat j) =
          lane j (requantize p (fst (accumulate w ptrs s)))"
    by (rule full_tile_mem[OF assms(1)])
next
  show "stores (trace (snd (tail_tile p r (w, ptrs, out, s)))) = stores (trace s) @ tail_stores r out"
    by (rule tail_tile_stores[OF assms(1)])
next
  show "map snd (tail_stores r out) = filter (\<lambda>m. r AND m \<noteq> 0) [4, 2, 1]"
    by (rule tail_store_sizes[OF assms(3)])
next
  fix x assume "\<forall>j<r. x \<noteq> out + of_nat j"
  then show "mem (snd (tail_tile p r (w, ptrs, out, s))) x = mem s x"
    by (rule tail_tile_frame[OF assms(1,3)])
qed

theorem tail_matches_full_tile_witness:
  "length (replicate 9 (0x0303030303030303 :: addr)) = 9 \<and> (0 :: nat) < 7 \<and> (7 :: nat) < 8 \<and>
   mem (snd (tail_tile example_params 7
          (2000, replicate 9 0x0303030303030303, 1000, example_machine))) 1000 = 127 \<and>
   mem (snd (snd (snd (full_tile example_params
          (2000, replicate 9 0x0303030303030303, 1000, example_machine))))) 1000 = 127 \<and>
   mem (snd (tail_tile example_params 7
          (2000, replicate 9 0x0303030303030303, 1000, example_machine))) 1005 = 127 \<and>
   mem (snd (snd (snd (full_tile example_params
          (2000, replicate 9 0x0303030303030303, 1000, example_machine))))) 1005 = 127 \<and>
   mem (snd (tail_tile example_params 7
          (2000, replicate 9 0x0303030303030303, 1000, example_machine))) 1006 = 127 \<and>
   mem (snd (snd (snd (full_tile example_params
          (2000, replicate 9 0x0303030303030303, 1000, example_machine))))) 1006 = 127 \<and>
   mem (snd (tail_tile example_params 7
          (2000, replicate 9 0x0303030303030303, 1000, example_machine))) 1007 = 1 \<and>
   stores (trace (snd (tail_tile example_params 7
          (2000, replicate 9 0x0303030303030303, 1000, example_machine)))) =
     [(1000, 4), (1004, 2), (1006, 1)]"
proof -
  have l: "length (replicate 9 (0x0303030303030303 :: addr)) = 9"
    and r: "(0 :: nat) < 7" "(7 :: nat) < 8" by simp_all
  note t = tail_matches_full_tile[OF l r, where p=example_params and w=2000 and out=1000
      and s=example_machine]
  have m: "mem (snd (tail_tile example_params 7
          (2000, replicate 9 0x0303030303030303, 1000, example_machine))) (1000 + of_nat j) = 127 \<and>
        mem (snd (snd (snd (full_tile example_params
          (2000, replicate 9 0x0303030303030303, 1000, example_machine))))) (1000 + of_nat j) = 127"
    if "j < 7" for j
  proof -
    have "j < 8" using that by simp
    from example_requantized[OF this] t that show ?thesis by simp
  qed
  have f: "mem (snd (tail_tile example_params 7
          (2000, replicate 9 0x0303030303030303, 1000, example_machine))) 1007 = mem example_machine 1007"
  proof -
    have "\<forall>j<7. (1007 :: addr) \<noteq> 1000 + of_nat j"
    proof (intro allI impI)
      fix j :: nat assume "j < 7"
      then have "j = 0 \<or> j = 1 \<or> j = 2 \<or> j = 3 \<or> j = 4 \<or> j = 5 \<or> j = 6" by linarith
      then show "(1007 :: addr) \<noteq> 1000 + of_nat j" by (elim disjE) simp_all
    qed
    then show ?thesis using t by blast
  qed
  have f': "mem (snd (tail_tile example_params 7
          (2000, replicate 9 0x0303030303030303, 1000, example_machine))) 1007 = 1"
    unfolding f by (simp add: example_machine_def)
  have st: "stores (trace (snd (tail_tile example_params 7
          (2000, replicate 9 0x0303030303030303, 1000, example_machine)))) =
     [(1000, 4), (1004, 2), (1006, 1)]"
    using t by (simp add: trace_example_machine tail_stores_cases)
  show ?thesis
    using l r m[of 0] m[of 5] m[of 6] f' st by simp
qed

section \<open>The claim about the depth-to-space kernel\<close>

text \<open>
  C10.  For dimensions that are not zero the kernel returns the machine in which the
  copies of \<open>element_copies\<close> have been made one after the other, and nothing else.
  These are the copies of the elements \<open>(iy, by, ix, bx, c)\<close> with \<open>iy < input_height\<close>,
  \<open>by < block_size\<close>, \<open>ix < input_width\<close>, \<open>bx < block_size\<close> and
  \<open>c < output_channels\<close>, one copy for each element, the last index running
  fastest: the 32-bit element at the byte offset
  \<open>(iy * block_size + by) * output_height_stride + (ix * block_size + bx) * output_width_stride + c * 4\<close>
  of the output is written from the element at the byte offset
  \<open>(c * block_size * block_size + by * block_size + bx) * input_channel_stride + iy * input_height_stride + ix * 4\<close>
  of the input.  Every byte outside the elements written is left as it was.  When no
  element written overlaps an element read or another element written, no output
  address is written twice, and in the end each output element holds what the input
  element held at the start.
\<close>

theorem depth_to_space_copies:
  assumes "output_channels \<noteq> 0" "input_height \<noteq> 0" "input_width \<noteq> 0" "block_size \<noteq> 0"
  shows "\<exists>s'. xnn_x32_depth_to_space_chw2hwc_ukernel__scalar_c1_ib2 output_channels input_height
                 input_width block_size input output input_channel_stride input_height_stride
                 output_height_stride output_width_stride s = Inr s' \<and>
           s' = run_copies
                  (element_copies output_channels input_height input_width block_size input output
                     input_channel_stride input_height_stride output_height_stride
                     output_width_stride) s \<and>
           x32_copies s' = x32_copies s @
             element_copies output_channels input_height input_width block_size input output
               input_channel_stride input_height_stride output_height_stride output_width_stride \<and>
           length (element_copies output_channels input_height input_width block_size input output
               input_channel_stride input_height_stride output_height_stride output_width_stride) =
             unat input_height * (unat block_size * (unat input_width *
               (unat block_size * unat output_channels))) \<and>
           (\<forall>x. list_all (\<lambda>e. \<not> x - fst e < 4)
                  (element_copies output_channels input_height input_width block_size input output
                     input_channel_stride input_height_stride output_height_stride
                     output_width_stride) \<longrightarrow>
                x32_mem s' x = x32_mem s x) \<and>
           (no_alias (element_copies output_channels input_height input_width block_size input output
                        input_channel_stride input_height_stride output_height_stride
                        output_width_stride) \<longrightarrow>
              distinct (map fst (element_copies output_channels input_height input_width block_size
                        input output input_channel_stride input_height_stride output_height_stride
                        output_width_stride)) \<and>
              (\<forall>iy<unat input_height. \<forall>yb<unat block_size. \<forall>ix<unat input_width.
               \<forall>xb<unat block_size. \<forall>c<unat output_channels. \<forall>j<4.
                 x32_mem s' (fst (element_copy block_size input output input_channel_stride
                                    input_height_stride output_height_stride output_width_stride
                                    iy yb ix xb c) + of_nat j) =
                 x32_mem s (snd (element_copy block_size input output input_channel_stride
                                   input_height_stride output_height_stride output_width_stride
                                   iy yb ix xb c) + of_nat j)))"
proof -
  define es where "es = element_copies output_channels input_height input_width block_size input output
               input_channel_stride input_height_stride output_height_stride output_width_stride"
  have k: "xnn_x32_depth_to_space_chw2hwc_ukernel__scalar_c1_ib2 output_channels input_height
                 input_width block_size input output input_channel_stride input_height_stride
                 output_height_stride output_width_stride s = Inr (run_copies es s)"
    unfolding es_def by (rule kernel_run_copies[OF assms])
  have 1: "x32_copies (run_copies es s) = x32_copies s @ es"
    by (rule x32_copies_run_copies)
  have 2: "length es = unat input_height * (unat block_size * (unat input_width *
               (unat block_size * unat output_channels)))"
    unfolding es_def by (rule length_element_copies)
  have 3: "\<forall>x. list_all (\<lambda>e. \<not> x - fst e < 4) es \<longrightarrow> x32_mem (run_copies es s) x = x32_mem s x"
    using run_copies_frame by blast
  have 4: "distinct (map fst es)" if "no_alias es"
    using that by (simp add: no_alias_def disjoint_outputs_distinct)
  have 5: "x32_mem (run_copies es s)
             (fst (element_copy block_size input output input_channel_stride
                     input_height_stride output_height_stride output_width_stride
                     iy yb ix xb c) + of_nat j) =
           x32_mem s (snd (element_copy block_size input output input_channel_stride
                             input_height_stride output_height_stride output_width_stride
                             iy yb ix xb c) + of_nat j)"
    if na: "no_alias es" and t: "iy < unat input_height" "yb < unat block_size" "ix < unat input_width"
      "xb < unat block_size" "c < unat output_channels" and j: "j < 4" for iy yb ix xb c j
  proof -
    have "element_copy block_size input output input_channel_stride input_height_stride
            output_height_stride output_width_stride iy yb ix xb c \<in> set es"
      unfolding es_def by (rule element_copy_in_copies[OF t])
    then obtain k where k: "k < length es"
      "es ! k = element_copy block_size input output input_channel_stride input_height_stride
            output_height_stride output_width_stride iy yb ix xb c"
      by (auto simp add: in_set_conv_nth)
    show ?thesis using run_copies_mem[OF na k(1) j, of s] unfolding k(2) .
  qed
  show ?thesis
    unfolding es_def[symmetric]
    by (intro exI[of _ "run_copies es s"] conjI k refl 1 2 3 impI allI 4 5)
qed

theorem depth_to_space_copies_witness:
  "(2 :: size_t) \<noteq> 0 \<and> (1 :: size_t) \<noteq> 0 \<and> (3 :: size_t) \<noteq> 0 \<and>
   no_alias (element_copies 2 1 1 3 100 1000 4 4 24 8) \<and>
   example_depth_to_space = Inr (projr example_depth_to_space) \<and>
   x32_copies (projr example_depth_to_space) =
     [(1000, 100), (1004, 136), (1008, 104), (1012, 140), (1016, 108), (1020, 144),
      (1024, 112), (1028, 148), (1032, 116), (1036, 152), (1040, 120), (1044, 156),
      (1048, 124), (1052, 160), (1056, 128), (1060, 164), (1064, 132), (1068, 168)] \<and>
   element_copy 3 100 1000 4 4 24 8 0 1 0 2 1 = (1044, 156) \<and>
   x32_mem (projr example_depth_to_space) 1044 = 156 \<and>
   x32_mem (projr example_depth_to_space) 1045 = 157 \<and>
   x32_mem (projr example_depth_to_space) 1046 = 158 \<and>
   x32_mem (projr example_depth_to_space) 1047 = 159 \<and>
   x32_mem (projr example_depth_to_space) 1072 = 48"
proof -
  have d: "(2 :: size_t) \<noteq> 0" "(1 :: size_t) \<noteq> 0" "(1 :: size_t) \<noteq> 0" "(3 :: size_t) \<noteq> 0"
    by simp_all
  from depth_to_space_copies[OF d, of 100 1000 4 4 24 8 example_x32_machine]
  obtain s' where
    r: "example_depth_to_space = Inr s'" and
    c: "x32_copies s' = x32_copies example_x32_machine @ element_copies 2 1 1 3 100 1000 4 4 24 8" and
    f: "\<forall>x. list_all (\<lambda>e. \<not> x - fst e < 4) (element_copies 2 1 1 3 100 1000 4 4 24 8) \<longrightarrow>
            x32_mem s' x = x32_mem example_x32_machine x" and
    m: "no_alias (element_copies 2 1 1 3 100 1000 4 4 24 8) \<longrightarrow>
        (\<forall>iy<unat (1 :: size_t). \<forall>yb<unat (3 :: size_t). \<forall>ix<unat (1 :: size_t).
         \<forall>xb<unat (3 :: size_t). \<forall>c<unat (2 :: size_t). \<forall>j<4.
           x32_mem s' (fst (element_copy 3 100 1000 4 4 24 8 iy yb ix xb c) + of_nat j) =
           x32_mem example_x32_machine (snd (element_copy 3 100 1000 4 4 24 8 iy yb ix xb c) + of_nat j))"
    unfolding example_depth_to_space_def by blast
  have p: "projr example_depth_to_space = s'" unfolding r by simp
  have e: "element_copy 3 100 1000 4 4 24 8 0 1 0 2 1 = (1044, 156)"
    by (simp add: element_copy_def)
  have b: "x32_mem s' (1044 + of_nat j) = x32_mem example_x32_machine (156 + of_nat j)" if "j < 4" for j
  proof -
    have "x32_mem s' (fst (element_copy 3 100 1000 4 4 24 8 0 1 0 2 1) + of_nat j) =
          x32_mem example_x32_machine (snd (element_copy 3 100 1000 4 4 24 8 0 1 0 2 1) + of_nat j)"
      using m example_no_alias that by simp
    then show ?thesis unfolding e by simp
  qed
  have o: "x32_mem s' 1072 = x32_mem example_x32_machine 1072"
    using f unfolding example_element_copies by simp
  show ?thesis
    unfolding p r
    using d example_no_alias c b[of 0] b[of 1] b[of 2] b[of 3] o e
    by (simp add: example_element_copies example_x32_machine_def)
qed


end
